theory Spec2Isabelle
  imports Complex_Main
begin

section \<open>Skeleton post-processing: \<^verbatim>\<open>igneous/tasks/skeletonization/postprocess.py\<close>\<close>

text \<open>
  The development embeds the \<^verbatim>\<open>trim_skeleton\<close> pipeline of
  \<^verbatim>\<open>postprocess.py\<close>. Floating point coordinates, radii and lengths are
  idealised as real numbers; vertex indices are natural numbers. A function of the
  source that can raise, or whose loop is not known to stop, returns a value of type
  \<open>error + 'a\<close>.
\<close>

subsection \<open>Geometry\<close>

type_synonym point = "real \<times> real \<times> real"

text \<open>\<^verbatim>\<open>np.sum((a - b) ** 2)\<close> for two rows of the vertex array.\<close>

fun sqdist :: "point \<Rightarrow> point \<Rightarrow> real" where
  "sqdist (px, py, pz) (qx, qy, qz) = (px - qx)\<^sup>2 + (py - qy)\<^sup>2 + (pz - qz)\<^sup>2"

text \<open>\<^verbatim>\<open>np.linalg.norm(a - b)\<close>: the euclidean distance.\<close>

definition norm3 :: "point \<Rightarrow> point \<Rightarrow> real" where
  "norm3 p q = sqrt (sqdist p q)"

subsection \<open>The skeleton value and the library operations on it\<close>

text \<open>
  \<^verbatim>\<open>PrecomputedSkeleton\<close>: the vertex array (one row per vertex), the edge array
  (one row of two vertex indices per edge) and the radii. The identifier and the
  optional vertex types are never read by the passes and are left out.
\<close>

record skeleton =
  vertices :: "point list"
  edges :: "(nat \<times> nat) list"
  radii :: "real list"

definition empty_skeleton :: skeleton where
  "empty_skeleton = \<lparr>vertices = [], edges = [], radii = []\<rparr>"

text \<open>
  Modelled from the spec: \<^verbatim>\<open>PrecomputedSkeleton.empty\<close> is not under src/.
  Section 4.4 and section 7 treat a skeleton without vertices and a skeleton of one
  vertex (which has no edge) alike: both are returned unchanged by the guard
  \<^verbatim>\<open>if skeleton.empty(): return skeleton\<close>.
\<close>

definition empty :: "skeleton \<Rightarrow> bool" where
  "empty s \<longleftrightarrow> vertices s = [] \<or> edges s = []"

text \<open>The flattened edge array, \<^verbatim>\<open>edges.flatten()\<close>: every endpoint, row by row.\<close>

fun flatten :: "(nat \<times> nat) list \<Rightarrow> nat list" where
  "flatten [] = []"
| "flatten ((a, b) # es) = a # b # flatten es"

text \<open>\<^verbatim>\<open>np.unique\<close> of an integer array: its distinct values in ascending order.\<close>

definition np_unique :: "nat list \<Rightarrow> nat list" where
  "np_unique xs = sort (remdups xs)"

text \<open>
  The counts of \<^verbatim>\<open>np.unique(edges, return_counts=True)\<close>: how often a vertex
  occurs in the edge array.
\<close>

definition unique_count :: "(nat \<times> nat) list \<Rightarrow> nat \<Rightarrow> nat" where
  "unique_count es v = count_list (flatten es) v"

text \<open>
  Modelled from the spec: \<^verbatim>\<open>PrecomputedSkeleton.cable_length\<close> is not under
  src/. Section 3: the cable length is the sum of the euclidean lengths of the edges.
\<close>

definition cable_length :: "skeleton \<Rightarrow> real" where
  "cable_length s = (\<Sum>(a, b) \<leftarrow> edges s. norm3 (vertices s ! a) (vertices s ! b))"

text \<open>The position of a vertex in a list of kept vertices.\<close>

fun index_of :: "nat list \<Rightarrow> nat \<Rightarrow> nat" where
  "index_of [] v = 0"
| "index_of (x # xs) v = (if x = v then 0 else Suc (index_of xs v))"

definition reindex :: "nat list \<Rightarrow> nat \<times> nat \<Rightarrow> nat \<times> nat" where
  "reindex keep e = (index_of keep (fst e), index_of keep (snd e))"

text \<open>The sub-skeleton on the vertices \<open>keep\<close> (ascending) with the edge rows \<open>es\<close>.\<close>

definition restrict :: "skeleton \<Rightarrow> nat list \<Rightarrow> (nat \<times> nat) list \<Rightarrow> skeleton" where
  "restrict s keep es =
     \<lparr>vertices = map (\<lambda>i. vertices s ! i) keep,
      edges = map (reindex keep) es,
      radii = map (\<lambda>i. radii s ! i) keep\<rparr>"

text \<open>
  Modelled from the spec: \<^verbatim>\<open>PrecomputedSkeleton.consolidate\<close> is not under
  src/. Section 4.5: remove vertices with degree 0; reindex remaining vertices to a
  compact range; rewrite edges; shrink radii.
\<close>

definition consolidate :: "skeleton \<Rightarrow> skeleton" where
  "consolidate s = restrict s (np_unique (flatten (edges s))) (edges s)"

definition shift :: "nat \<Rightarrow> nat \<times> nat \<Rightarrow> nat \<times> nat" where
  "shift k e = (fst e + k, snd e + k)"

text \<open>
  Modelled from the spec: \<^verbatim>\<open>PrecomputedSkeleton.simple_merge\<close> is not under
  src/. Section 4.5: concatenate the vertex, edge and radius arrays of several skeletons,
  shifting each successor's edge indices by the cumulative vertex count of its
  predecessors; no deduplication.
\<close>

fun simple_merge :: "skeleton list \<Rightarrow> skeleton" where
  "simple_merge [] = empty_skeleton"
| "simple_merge (s # ss) =
     \<lparr>vertices = vertices s @ vertices (simple_merge ss),
      edges = edges s @ map (shift (length (vertices s))) (edges (simple_merge ss)),
      radii = radii s @ radii (simple_merge ss)\<rparr>"

subsection \<open>Connectivity\<close>

text \<open>The vertices adjacent to \<open>v\<close>, in the order of the edge array.\<close>

fun neighbours :: "(nat \<times> nat) list \<Rightarrow> nat \<Rightarrow> nat list" where
  "neighbours [] v = []"
| "neighbours ((a, b) # es) v =
     (if a = v then [b] else []) @ (if b = v then [a] else []) @ neighbours es v"

definition grow :: "(nat \<times> nat) list \<Rightarrow> nat list \<Rightarrow> nat list" where
  "grow es S = remdups (S @ concat (map (neighbours es) S))"

text \<open>
  The closure of a vertex list under adjacency: grow until nothing is added. Every
  round but the last adds an endpoint of an edge row, so \<open>2 * length es\<close> rounds are
  enough.
\<close>

fun reach_from :: "nat \<Rightarrow> (nat \<times> nat) list \<Rightarrow> nat list \<Rightarrow> nat list" where
  "reach_from 0 es S = S"
| "reach_from (Suc k) es S =
     (if length (grow es S) = length (remdups S) then S else reach_from k es (grow es S))"

definition reach :: "(nat \<times> nat) list \<Rightarrow> nat \<Rightarrow> nat list" where
  "reach es v = reach_from (Suc (length (flatten es))) es [v]"

text \<open>
  The component label of a vertex: the least vertex connected to it. A standard
  labelling numbers the components in the order of their least vertex, so comparing
  least vertices orders components as their labels do.
\<close>

definition label :: "(nat \<times> nat) list \<Rightarrow> nat \<Rightarrow> nat" where
  "label es v = fold min (reach es v) v"

text \<open>
  Modelled from the spec: \<^verbatim>\<open>PrecomputedSkeleton.components\<close> is not under
  src/. Section 4.5: standard undirected connected components over vertices; section 5:
  component lists are sorted by minimum vertex index. Each component is a skeleton of
  its own, its vertices in their original order and its edges rewritten.
\<close>

definition component :: "skeleton \<Rightarrow> nat \<Rightarrow> skeleton" where
  "component s r =
     restrict s (filter (\<lambda>v. label (edges s) v = r) [0..<length (vertices s)])
       (filter (\<lambda>e. label (edges s) (fst e) = r) (edges s))"

definition components :: "skeleton \<Rightarrow> skeleton list" where
  "components s =
     map (component s)
       (filter (\<lambda>v. label (edges s) v = v) [0..<length (vertices s)])"

subsection \<open>Dust removal\<close>

text \<open>\<^verbatim>\<open>remove_dust\<close>, lines 50 to 62.\<close>

definition remove_dust :: "skeleton \<Rightarrow> real \<Rightarrow> skeleton" where
  "remove_dust skeleton dust_threshold =
     (if empty skeleton then skeleton
      else consolidate (simple_merge
        (filter (\<lambda>skel. cable_length skel > dust_threshold) (components skeleton))))"

subsection \<open>Errors\<close>

text \<open>
  The exceptions the passes can raise, and \<open>OutOfFuel\<close> for a loop that has not
  stopped within the given number of iterations.
\<close>

datatype error = IndexError | ValueError | KeyError | NetworkXNoPath | OutOfFuel

fun bind_result :: "error + 'a \<Rightarrow> ('a \<Rightarrow> error + 'b) \<Rightarrow> error + 'b" where
  "bind_result (Inl e) f = Inl e"
| "bind_result (Inr x) f = f x"

text \<open>Run a fallible function over a list, stopping at the first error.\<close>

fun map_result :: "('a \<Rightarrow> error + 'b) \<Rightarrow> 'a list \<Rightarrow> error + 'b list" where
  "map_result f [] = Inr []"
| "map_result f (x # xs) =
     bind_result (f x) (\<lambda>y. bind_result (map_result f xs) (\<lambda>ys. Inr (y # ys)))"

subsection \<open>Piece connection\<close>

text \<open>
  \<^verbatim>\<open>combination_pairs\<close>, lines 27 to 35: the pairs \<open>(i, i + j + 1)\<close> in
  lexicographic order, stored as 16-bit unsigned integers.
\<close>

definition combination_pairs :: "nat \<Rightarrow> (nat \<times> nat) list" where
  "combination_pairs n =
     concat (map (\<lambda>i. map (\<lambda>j. (i mod 65536, (i + j + 1) mod 65536)) [0..<n - i - 1]) [0..<n])"

text \<open>
  \<^verbatim>\<open>find_connected\<close>, lines 37 to 48. \<open>l\<close> labels every vertex with its
  component; \<open>l_list\<close> keeps the labels of the vertices that occur in the edge array;
  a component is the boolean mask \<open>l == i\<close> over all vertices.
\<close>

definition find_connected :: "point list \<Rightarrow> (nat \<times> nat) list \<Rightarrow> bool list list" where
  "find_connected nodes es =
     (let l = map (label es) [0..<length nodes];
          l_nodes = map (\<lambda>v. l ! v) (np_unique (flatten es));
          l_list = np_unique l_nodes
      in map (\<lambda>i. map (\<lambda>x. x = i) l) l_list)"

text \<open>\<^verbatim>\<open>np.where(mask)[0]\<close>: the indices at which a mask is true.\<close>

definition np_where :: "bool list \<Rightarrow> nat list" where
  "np_where msk = filter (\<lambda>i. msk ! i) [0..<length msk]"

text \<open>\<^verbatim>\<open>np.min\<close>, \<^verbatim>\<open>np.max\<close> and the first index of a value.\<close>

definition np_min :: "real list \<Rightarrow> real" where
  "np_min xs = fold min (tl xs) (hd xs)"

definition np_max :: "real list \<Rightarrow> real" where
  "np_max xs = fold max (tl xs) (hd xs)"

fun first_index :: "'a list \<Rightarrow> 'a \<Rightarrow> nat" where
  "first_index [] v = 0"
| "first_index (x # xs) v = (if x = v then 0 else Suc (first_index xs v))"

definition argmin :: "real list \<Rightarrow> nat" where
  "argmin xs = first_index xs (np_min xs)"

definition argmax :: "real list \<Rightarrow> nat" where
  "argmax xs = first_index xs (np_max xs)"

text \<open>
  Lines 79 to 100, for one pair of components: the nearest neighbour query of every
  vertex of the piece against the tree (\<^verbatim>\<open>cKDTree.query\<close>: the distance to the
  nearest vertex of the tree and its position, here the first nearest), the closest
  such pair, and the radius test. The result is the new edge, if the test admits it.
\<close>

definition bridge :: "point list \<Rightarrow> real list \<Rightarrow> bool list \<Rightarrow> bool list \<Rightarrow> (nat \<times> nat) option" where
  "bridge nodes rs path_piece path_tree =
     (let nodes_piece_idx = np_where path_piece;
          nodes_piece = map (\<lambda>i. nodes ! i) nodes_piece_idx;
          nodes_tree_idx = np_where path_tree;
          nodes_tree = map (\<lambda>i. nodes ! i) nodes_tree_idx;
          dist = map (\<lambda>p. np_min (map (norm3 p) nodes_tree)) nodes_piece;
          idx = map (\<lambda>p. argmin (map (norm3 p) nodes_tree)) nodes_piece;
          min_dist = np_min dist;
          min_dist_idx = first_index dist min_dist;
          start_idx = nodes_piece_idx ! min_dist_idx;
          end_idx = nodes_tree_idx ! (idx ! min_dist_idx)
      in if rs ! start_idx + rs ! end_idx \<ge> min_dist
         then Some (start_idx, end_idx) else None)"

text \<open>The \<^verbatim>\<open>for\<close> loop over the pairs, left at the first admitted bridge.\<close>

fun sweep :: "point list \<Rightarrow> real list \<Rightarrow> bool list list \<Rightarrow> (nat \<times> nat) list \<Rightarrow> (nat \<times> nat) option" where
  "sweep nodes rs conn [] = None"
| "sweep nodes rs conn ((i, j) # pairs) =
     (case bridge nodes rs (conn ! i) (conn ! j) of
        Some e \<Rightarrow> Some e
      | None \<Rightarrow> sweep nodes rs conn pairs)"

text \<open>The \<^verbatim>\<open>while all_connected\<close> loop, lines 72 to 100.\<close>

fun connect_loop :: "nat \<Rightarrow> point list \<Rightarrow> real list \<Rightarrow> (nat \<times> nat) list \<Rightarrow> error + (nat \<times> nat) list" where
  "connect_loop 0 nodes rs es = Inl OutOfFuel"
| "connect_loop (Suc fuel) nodes rs es =
     (let conn = find_connected nodes es;
          pairs = combination_pairs (length conn)
      in case sweep nodes rs conn pairs of
           Some new_edge \<Rightarrow> connect_loop fuel nodes rs (es @ [new_edge])
         | None \<Rightarrow> Inr es)"

text \<open>\<^verbatim>\<open>connect_pieces\<close>, lines 64 to 103.\<close>

definition connect_pieces :: "nat \<Rightarrow> skeleton \<Rightarrow> error + skeleton" where
  "connect_pieces fuel skeleton =
     (if empty skeleton then Inr skeleton
      else bind_result (connect_loop fuel (vertices skeleton) (radii skeleton) (edges skeleton))
             (\<lambda>es. Inr (consolidate (skeleton\<lparr>edges := es\<rparr>))))"

subsection \<open>The graph library\<close>

text \<open>
  A \<^verbatim>\<open>networkx.Graph\<close> is kept as the list of its edges in the order of their
  insertion, an edge being present whichever way round it is written. Adding a present
  edge and removing an absent one change nothing.
\<close>

definition has_edge :: "(nat \<times> nat) list \<Rightarrow> nat \<times> nat \<Rightarrow> bool" where
  "has_edge G e \<longleftrightarrow> e \<in> set G \<or> (snd e, fst e) \<in> set G"

definition add_edge :: "(nat \<times> nat) list \<Rightarrow> nat \<times> nat \<Rightarrow> (nat \<times> nat) list" where
  "add_edge G e = (if has_edge G e then G else G @ [e])"

definition add_edges_from :: "(nat \<times> nat) list \<Rightarrow> (nat \<times> nat) list \<Rightarrow> (nat \<times> nat) list" where
  "add_edges_from G es = fold (\<lambda>e g. add_edge g e) es G"

definition remove_edge :: "(nat \<times> nat) list \<Rightarrow> nat \<times> nat \<Rightarrow> (nat \<times> nat) list" where
  "remove_edge G e = filter (\<lambda>x. x \<noteq> e \<and> x \<noteq> (snd e, fst e)) G"

definition remove_edges_from :: "(nat \<times> nat) list \<Rightarrow> (nat \<times> nat) list \<Rightarrow> (nat \<times> nat) list" where
  "remove_edges_from G es = fold (\<lambda>e g. remove_edge g e) es G"

text \<open>
  \<^verbatim>\<open>nx.shortest_path(G, s, t)\<close> without weights: a path with the fewest edges,
  found breadth first. The frontier holds the paths of the current length, newest vertex
  first; which of several shortest paths is returned is the library's choice, here the
  first one found.
\<close>

fun extend :: "(nat \<times> nat) list \<Rightarrow> nat list list \<Rightarrow> nat list \<Rightarrow> nat list list" where
  "extend G [] seen = []"
| "extend G (p # ps) seen =
     (let new = remdups (filter (\<lambda>w. w \<notin> set seen) (neighbours G (hd p)))
      in map (\<lambda>w. w # p) new @ extend G ps (seen @ new))"

fun bfs :: "nat \<Rightarrow> (nat \<times> nat) list \<Rightarrow> nat list list \<Rightarrow> nat list \<Rightarrow> nat \<Rightarrow> nat list option" where
  "bfs 0 G frontier seen t = None"
| "bfs (Suc k) G frontier seen t =
     (case filter (\<lambda>p. hd p = t) frontier of
        p # ps \<Rightarrow> Some (rev p)
      | [] \<Rightarrow>
          (if frontier = [] then None
           else bfs k G (extend G frontier seen) (seen @ map hd (extend G frontier seen)) t))"

definition shortest_path :: "(nat \<times> nat) list \<Rightarrow> nat \<Rightarrow> nat \<Rightarrow> error + nat list" where
  "shortest_path G s t =
     (case bfs (Suc (Suc (length (flatten G)))) G [[s]] [s] t of
        Some p \<Rightarrow> Inr p
      | None \<Rightarrow> Inl NetworkXNoPath)"

subsection \<open>Loop removal\<close>

text \<open>\<^verbatim>\<open>path2edge\<close>, lines 409 to 419.\<close>

fun path2edge :: "nat list \<Rightarrow> (nat \<times> nat) list" where
  "path2edge (a # b # p) = (a, b) # path2edge (b # p)"
| "path2edge p = []"

text \<open>\<^verbatim>\<open>np.sort(array, axis=1)\<close> on an edge array: every row in ascending order.\<close>

definition sort_row :: "nat \<times> nat \<Rightarrow> nat \<times> nat" where
  "sort_row e = (min (fst e) (snd e), max (fst e) (snd e))"

text \<open>
  \<^verbatim>\<open>find_row\<close>, lines 433 to 457: the indices of the rows equal to \<open>row\<close>; the
  source returns \<open>-1\<close> for the empty list of indices.
\<close>

definition find_row :: "(nat \<times> nat) list \<Rightarrow> nat \<times> nat \<Rightarrow> nat list" where
  "find_row array row = filter (\<lambda>i. array ! i = row) [0..<length array]"

text \<open>\<^verbatim>\<open>np.delete(array, idx, axis=0)\<close>.\<close>

definition np_delete :: "'a list \<Rightarrow> nat list \<Rightarrow> 'a list" where
  "np_delete array idx = map snd (filter (\<lambda>p. fst p \<notin> set idx) (enumerate 0 array))"

text \<open>\<^verbatim>\<open>remove_row\<close>, lines 421 to 430.\<close>

definition remove_row :: "(nat \<times> nat) list \<Rightarrow> (nat \<times> nat) list \<Rightarrow> (nat \<times> nat) list" where
  "remove_row array rows2remove =
     fold (\<lambda>row arr. (let idx = find_row arr row in if idx = [] then arr else np_delete arr idx))
       (map sort_row rows2remove) (map sort_row array)"

text \<open>
  Modelled from the spec: \<^verbatim>\<open>igneous.skeletontricks.find_cycle\<close> is not under
  src/. Section 4.2 step 1 and section 9: find any cycle, a cyclically ordered set of
  edges closing back on itself, or nothing when the graph has none; any correct
  detector will do and the cycle chosen is unspecified. This detector takes the first
  edge row whose ends are still joined when the edge is taken away, and closes the path
  between them with that edge.
\<close>

fun find_cycle_from :: "(nat \<times> nat) list \<Rightarrow> (nat \<times> nat) list \<Rightarrow> (nat \<times> nat) list" where
  "find_cycle_from es [] = []"
| "find_cycle_from es ((a, b) # cs) =
     (if a = b then find_cycle_from es cs
      else case bfs (Suc (Suc (length (flatten es)))) (remove_edge es (a, b)) [[b]] [b] a of
             Some p \<Rightarrow> path2edge p @ [(a, b)]
           | None \<Rightarrow> find_cycle_from es cs)"

definition find_cycle :: "(nat \<times> nat) list \<Rightarrow> nat \<Rightarrow> (nat \<times> nat) list" where
  "find_cycle es num_verts = find_cycle_from es es"

text \<open>\<^verbatim>\<open>np.mean(points, axis=0)\<close>.\<close>

definition centroid_of :: "point list \<Rightarrow> point" where
  "centroid_of ps =
     (sum_list (map fst ps) / real (length ps),
      sum_list (map (fst \<circ> snd) ps) / real (length ps),
      sum_list (map (snd \<circ> snd) ps) / real (length ps))"

text \<open>
  Lines 336 to 347: the sorted cycle rows, the vertices of the cycle and those of them
  that occur three times or more in the edge array, both in ascending order.
\<close>

definition nodes_cycle_of :: "(nat \<times> nat) list \<Rightarrow> nat list" where
  "nodes_cycle_of edges_cycle = np_unique (flatten (map sort_row edges_cycle))"

definition branch_cycle_of :: "(nat \<times> nat) list \<Rightarrow> (nat \<times> nat) list \<Rightarrow> nat list" where
  "branch_cycle_of es edges_cycle =
     filter (\<lambda>v. unique_count es v \<ge> 3) (nodes_cycle_of edges_cycle)"

text \<open>
  The body of the \<^verbatim>\<open>while True\<close> loop for a detected cycle, lines 336 to 403.
  The state is the graph \<open>G\<close> and the edge array kept beside it.
\<close>

definition loop_step ::
  "point list \<Rightarrow> (nat \<times> nat) list \<times> (nat \<times> nat) list \<Rightarrow> (nat \<times> nat) list
     \<Rightarrow> error + (nat \<times> nat) list \<times> (nat \<times> nat) list" where
  "loop_step nodes st found =
     (let G = fst st; es = snd st;
          edges_cycle = map sort_row found;
          nodes_cycle = nodes_cycle_of found;
          branch_cycle = branch_cycle_of es found
      in if length branch_cycle = 1 then
           (let d = map (\<lambda>c. sqdist (nodes ! c) (nodes ! (branch_cycle ! 0))) nodes_cycle;
                end_node = nodes_cycle ! argmax d
            in Inr (add_edge (remove_edges_from G edges_cycle) (branch_cycle ! 0, end_node),
                    remove_row es edges_cycle @ [(branch_cycle ! 0, end_node)]))
         else if length branch_cycle = 2 then
           bind_result (shortest_path G (branch_cycle ! 0) (branch_cycle ! 1))
             (\<lambda>p. let edge_path = map sort_row (path2edge p);
                       edge_path' = filter (\<lambda>c. int 1 - int (count_list edge_path c) \<noteq> 0) edges_cycle
                   in Inr (remove_edges_from G edge_path', remove_row es edge_path'))
         else if length branch_cycle = 0 then
           Inr (remove_edges_from G edges_cycle, remove_row es edges_cycle)
         else
           (let centroid = centroid_of (map (\<lambda>b. nodes ! b) branch_cycle);
                d = map (\<lambda>p. sqdist p centroid) nodes;
                intersect_node = argmin d;
                new_edges = filter (\<lambda>e. fst e \<noteq> intersect_node)
                              (map (\<lambda>b. (b, intersect_node)) branch_cycle)
            in Inr (add_edges_from (remove_edges_from G edges_cycle) new_edges,
                    remove_row es edges_cycle @ new_edges)))"

text \<open>The \<^verbatim>\<open>while True\<close> loop, lines 329 to 403.\<close>

fun loops_loop ::
  "nat \<Rightarrow> point list \<Rightarrow> (nat \<times> nat) list \<times> (nat \<times> nat) list \<Rightarrow> error + (nat \<times> nat) list" where
  "loops_loop 0 nodes st = Inl OutOfFuel"
| "loops_loop (Suc fuel) nodes st =
     (let edges_cycle = find_cycle (snd st) (length nodes)
      in if length edges_cycle = 0 then Inr (snd st)
         else bind_result (loop_step nodes st edges_cycle) (loops_loop fuel nodes))"

text \<open>\<^verbatim>\<open>_remove_loops\<close>, lines 312 to 407.\<close>

definition remove_loops1 :: "nat \<Rightarrow> skeleton \<Rightarrow> error + skeleton" where
  "remove_loops1 fuel skeleton =
     bind_result
       (loops_loop fuel (vertices skeleton) (add_edges_from [] (edges skeleton), edges skeleton))
       (\<lambda>es. Inr (skeleton\<lparr>edges := es\<rparr>))"

text \<open>\<^verbatim>\<open>remove_loops\<close>, lines 302 to 310.\<close>

definition remove_loops :: "nat \<Rightarrow> skeleton \<Rightarrow> error + skeleton" where
  "remove_loops fuel skeleton =
     (if empty skeleton then Inr skeleton
      else bind_result (map_result (remove_loops1 fuel) (components skeleton))
             (\<lambda>skels. Inr (consolidate (simple_merge skels))))"

subsection \<open>Tick removal\<close>

text \<open>
  The distance supergraph is a dictionary from tuples of vertices to lengths, kept as
  an association list in insertion order. A key made by \<^verbatim>\<open>_create_distance_graph\<close>
  is a pair; a key made by \<^verbatim>\<open>fuse_edge\<close> is whatever \<^verbatim>\<open>tuple(unify)\<close> gives.
\<close>

type_synonym dgraph = "(nat list \<times> real) list"

definition dict_set :: "dgraph \<Rightarrow> nat list \<Rightarrow> real \<Rightarrow> dgraph" where
  "dict_set d k v =
     (if k \<in> set (map fst d) then map (\<lambda>p. if fst p = k then (k, v) else p) d
      else d @ [(k, v)])"

definition dict_del :: "dgraph \<Rightarrow> nat list \<Rightarrow> dgraph" where
  "dict_del d k = filter (\<lambda>p. fst p \<noteq> k) d"

text \<open>
  The depth first search of \<^verbatim>\<open>_create_distance_graph\<close>, lines 280 to 298. The four
  stacks of the source move together and are one stack of frames
  \<open>(node, parent, dist, root)\<close>, its top at the head; the parent \<open>-1\<close> of the first
  frame is \<open>None\<close>. The children of a node, a set in the source, are visited in
  ascending order. The search has no visited set: on a graph with a cycle it does not
  stop, and the fuel runs out.
\<close>

fun dfs ::
  "nat \<Rightarrow> point list \<Rightarrow> (nat \<times> nat) list \<Rightarrow> nat list
     \<Rightarrow> (nat \<times> nat option \<times> real \<times> nat) list \<Rightarrow> dgraph \<Rightarrow> error + dgraph" where
  "dfs fuel vs es critical_points [] distgraph = Inr distgraph"
| "dfs 0 vs es critical_points (frame # stack) distgraph = Inl OutOfFuel"
| "dfs (Suc fuel) vs es critical_points ((node, parent, d, rt) # stack) distgraph =
     (let emit = (node \<in> set critical_points \<and> node \<noteq> rt);
          distgraph' = (if emit then dict_set distgraph [rt, node] d else distgraph);
          d' = (if emit then 0 else d);
          rt' = (if emit then node else rt);
          children = filter (\<lambda>child. Some child \<noteq> parent) (np_unique (neighbours es node))
      in dfs fuel vs es critical_points
           (rev (map (\<lambda>child. (child, Some node, d' + norm3 (vs ! node) (vs ! child), rt')) children)
              @ stack)
           distgraph')"

text \<open>Lines 180 to 183 and 256 to 258: the vertices that occur once in the edge array.\<close>

definition terminal_nodes_of :: "(nat \<times> nat) list \<Rightarrow> nat list" where
  "terminal_nodes_of es = filter (\<lambda>v. unique_count es v = 1) (np_unique (flatten es))"

definition branch_nodes_of :: "(nat \<times> nat) list \<Rightarrow> nat list" where
  "branch_nodes_of es = filter (\<lambda>v. unique_count es v \<ge> 3) (np_unique (flatten es))"

text \<open>\<^verbatim>\<open>_create_distance_graph\<close>, lines 230 to 300.\<close>

definition create_distance_graph :: "nat \<Rightarrow> skeleton \<Rightarrow> error + dgraph" where
  "create_distance_graph fuel skeleton =
     (let es = edges skeleton;
          terminal_nodes = terminal_nodes_of es;
          critical_points = terminal_nodes @ branch_nodes_of es
      in case terminal_nodes of
           [] \<Rightarrow> Inl IndexError
         | t # ts \<Rightarrow> dfs fuel (vertices skeleton) es critical_points [(t, None, 0, t)] [])"

text \<open>
  Lines 185 to 187: the \<^verbatim>\<open>branch_counts\<close> dictionary. Only the vertices that occur
  three times or more are entered; any other vertex reads as the default 0.
\<close>

definition initial_branch_counts :: "(nat \<times> nat) list \<Rightarrow> nat \<Rightarrow> int" where
  "initial_branch_counts es v = (if unique_count es v \<ge> 3 then int (unique_count es v) else 0)"

text \<open>
  \<^verbatim>\<open>fuse_edge\<close>, lines 192 to 201, on the supergraph and the branch counts.
  \<^verbatim>\<open>unify.remove(edg1)\<close> raises when no key holds \<open>edg1\<close>; the new key lists the
  remaining vertices in ascending order.
\<close>

definition fuse_edge :: "nat \<Rightarrow> dgraph \<times> (nat \<Rightarrow> int) \<Rightarrow> error + dgraph \<times> (nat \<Rightarrow> int)" where
  "fuse_edge edg1 st =
     (let unify = filter (\<lambda>p. edg1 \<in> set (fst p)) (fst st);
          new_dist = sum_list (map snd unify);
          rest = filter (\<lambda>p. edg1 \<notin> set (fst p)) (fst st);
          items = np_unique (concat (map fst unify))
      in if edg1 \<notin> set items then Inl KeyError
         else Inr (dict_set rest (removeAll edg1 items) new_dist, (snd st)(edg1 := 0)))"

text \<open>
  Line 204: the test \<^verbatim>\<open>edg[0] in terminal_nodes or edg[1] in terminal_nodes\<close> on a
  key, which raises when the key is too short for the index it reads.
\<close>

fun is_terminal_superedge :: "nat list \<Rightarrow> nat list \<Rightarrow> error + bool" where
  "is_terminal_superedge terminal_nodes [] = Inl IndexError"
| "is_terminal_superedge terminal_nodes [a] =
     (if a \<in> set terminal_nodes then Inr True else Inl IndexError)"
| "is_terminal_superedge terminal_nodes (a # b # edg) =
     Inr (a \<in> set terminal_nodes \<or> b \<in> set terminal_nodes)"

fun terminal_superedges_of :: "nat list \<Rightarrow> dgraph \<Rightarrow> error + dgraph" where
  "terminal_superedges_of terminal_nodes [] = Inr []"
| "terminal_superedges_of terminal_nodes (p # d) =
     bind_result (is_terminal_superedge terminal_nodes (fst p))
       (\<lambda>t. bind_result (terminal_superedges_of terminal_nodes d)
          (\<lambda>r. Inr (if t then p # r else r)))"

text \<open>\<^verbatim>\<open>min(terminal_superedges, key=dgraph.get)\<close>: the first entry of least length.\<close>

fun min_entry :: "dgraph \<Rightarrow> (nat list \<times> real) option" where
  "min_entry [] = None"
| "min_entry (p # d) =
     (case min_entry d of
        None \<Rightarrow> Some p
      | Some q \<Rightarrow> if snd q < snd p then Some q else Some p)"

text \<open>
  One round of the pruning loop, lines 204 to 224, on the supergraph, the branch counts
  and the graph \<open>G\<close>: \<open>None\<close> when the round leaves the loop by \<^verbatim>\<open>break\<close>.
\<close>

definition ticks_step ::
  "real \<Rightarrow> nat list \<Rightarrow> dgraph \<times> (nat \<Rightarrow> int) \<times> (nat \<times> nat) list
     \<Rightarrow> error + (dgraph \<times> (nat \<Rightarrow> int) \<times> (nat \<times> nat) list) option" where
  "ticks_step threshold terminal_nodes st =
     (let dg = fst st; bc = fst (snd st); G = snd (snd st)
      in bind_result (terminal_superedges_of terminal_nodes dg)
        (\<lambda>terminal_superedges.
           case min_entry terminal_superedges of
             None \<Rightarrow> Inl ValueError
           | Some (min_edge, w) \<Rightarrow>
              (case min_edge of
                 [e1, e2] \<Rightarrow>
                   if bc e1 = 1 \<and> bc e2 = 1 then Inr None
                   else if w \<ge> threshold then Inr None
                   else bind_result (shortest_path G e1 e2)
                     (\<lambda>p. let G' = remove_edges_from G (path2edge p);
                               dg1 = dict_del dg min_edge;
                               bc1 = bc(e1 := bc e1 - 1);
                               bc2 = bc1(e2 := bc1 e2 - 1)
                           in bind_result
                                (if bc2 e1 = 2 then fuse_edge e1 (dg1, bc2) else Inr (dg1, bc2))
                                (\<lambda>st2. bind_result
                                   (if snd st2 e2 = 2 then fuse_edge e2 st2 else Inr st2)
                                   (\<lambda>st3. Inr (Some (fst st3, snd st3, G')))))
               | _ \<Rightarrow> Inl ValueError)))"

text \<open>
  The \<^verbatim>\<open>while len(dgraph) > 1\<close> loop, lines 203 to 224; it returns the graph \<open>G\<close>.
  Every round that does not leave the loop makes the supergraph smaller.
\<close>

function ticks_loop ::
  "real \<Rightarrow> nat list \<Rightarrow> dgraph \<times> (nat \<Rightarrow> int) \<times> (nat \<times> nat) list \<Rightarrow> error + (nat \<times> nat) list" where
  "ticks_loop threshold terminal_nodes st =
     (if length (fst st) > 1 then
        (case ticks_step threshold terminal_nodes st of
           Inl e \<Rightarrow> Inl e
         | Inr None \<Rightarrow> Inr (snd (snd st))
         | Inr (Some st') \<Rightarrow>
             if length (fst st') < length (fst st)
             then ticks_loop threshold terminal_nodes st' else Inl OutOfFuel)
      else Inr (snd (snd st)))"
  by pat_completeness auto
termination
  by (relation "measure (\<lambda>(threshold, terminal_nodes, st). length (fst st))") auto

declare ticks_loop.simps [simp del]

text \<open>\<^verbatim>\<open>_remove_ticks\<close>, lines 132 to 228.\<close>

definition remove_ticks1 :: "nat \<Rightarrow> skeleton \<Rightarrow> real \<Rightarrow> error + skeleton" where
  "remove_ticks1 fuel skeleton threshold =
     (if empty skeleton then Inr skeleton
      else bind_result (create_distance_graph fuel skeleton)
        (\<lambda>dgraph. bind_result
           (ticks_loop threshold (terminal_nodes_of (edges skeleton))
              (dgraph, initial_branch_counts (edges skeleton), add_edges_from [] (edges skeleton)))
           (\<lambda>G. Inr (consolidate (skeleton\<lparr>edges := G\<rparr>)))))"

text \<open>\<^verbatim>\<open>remove_ticks\<close>, lines 105 to 130.\<close>

definition remove_ticks :: "nat \<Rightarrow> skeleton \<Rightarrow> real \<Rightarrow> error + skeleton" where
  "remove_ticks fuel skeleton threshold =
     (if empty skeleton then Inr skeleton
      else bind_result (map_result (\<lambda>c. remove_ticks1 fuel c threshold) (components skeleton))
             (\<lambda>skels. Inr (consolidate (simple_merge skels))))"

subsection \<open>The pipeline\<close>

text \<open>
  \<^verbatim>\<open>trim_skeleton\<close>, lines 18 to 23. \<open>fuel\<close> bounds the number of rounds of each
  loop that is not known to stop.
\<close>

definition trim_skeleton :: "nat \<Rightarrow> skeleton \<Rightarrow> real \<Rightarrow> real \<Rightarrow> error + skeleton" where
  "trim_skeleton fuel skeleton dust_threshold tick_threshold =
     bind_result (remove_loops fuel (remove_dust skeleton dust_threshold))
       (\<lambda>s1. bind_result (connect_pieces fuel s1)
          (\<lambda>s2. remove_ticks fuel s2 tick_threshold))"

subsection \<open>Well-formed and malformed skeletons\<close>


text \<open>
  Section 7: an edge that names a vertex that does not exist, or radii that are not
  aligned with the vertices. (A coordinate that is not a number has no counterpart
  among the reals.)
\<close>

definition malformed :: "skeleton \<Rightarrow> bool" where
  "malformed s \<longleftrightarrow>
     list_ex (\<lambda>e. fst e \<ge> length (vertices s) \<or> snd e \<ge> length (vertices s)) (edges s)
     \<or> length (radii s) \<noteq> length (vertices s)"

subsection \<open>Example skeletons\<close>

text \<open>
  A fork: the stem \<open>0 - 1 - 2\<close> along the x axis, of length 8, and a tick \<open>1 - 3\<close>
  of length 3.
\<close>

definition fork_vertices :: "point list" where
  "fork_vertices = [(- 4, 0, 0), (0, 0, 0), (4, 0, 0), (0, 3, 0)]"

definition fork_edges :: "(nat \<times> nat) list" where
  "fork_edges = [(0, 1), (1, 2), (1, 3)]"

definition fork_radii :: "real list" where
  "fork_radii = [1, 1, 1, 1]"

definition fork :: skeleton where
  "fork = \<lparr>vertices = fork_vertices, edges = fork_edges, radii = fork_radii\<rparr>"

definition fork_dgraph :: dgraph where
  "fork_dgraph = [([0, 1], 4), ([1, 3], 3), ([1, 2], 4)]"

definition stem_edges :: "(nat \<times> nat) list" where
  "stem_edges = [(0, 1), (1, 2)]"

definition stem :: skeleton where
  "stem = \<lparr>vertices = [(- 4, 0, 0), (0, 0, 0), (4, 0, 0)], edges = stem_edges, radii = [1, 1, 1]\<rparr>"

text \<open>
  The supergraph and the branch counts of the fork after the tick \<open>1 - 3\<close> is pruned.
\<close>

definition pruned_counts :: "nat \<Rightarrow> int" where
  "pruned_counts = (\<lambda>v. if v = 1 \<or> v = 3
       then (if initial_branch_counts fork_edges v - 1 = 2 then 0
             else initial_branch_counts fork_edges v - 1)
       else initial_branch_counts fork_edges v)"

definition pruned_dgraph :: dgraph where
  "pruned_dgraph = [([0, 2], 8)]"

text \<open>No vertex, one edge row and one radius: malformed twice over.\<close>

definition dangling :: skeleton where
  "dangling = \<lparr>vertices = [], edges = [(0, 1)], radii = [1]\<rparr>"

text \<open>One vertex without a radius.\<close>

definition bare :: skeleton where
  "bare = \<lparr>vertices = [(0, 0, 0)], edges = [], radii = []\<rparr>"

text \<open>
  Two collinear paths \<open>0 - 1 - 2\<close> and \<open>3 - 4 - 5\<close>, ten apart from vertex to vertex,
  with a gap of ten between them; once with radius 3 and once with radius 6.
\<close>

definition gap_vertices :: "point list" where
  "gap_vertices = [(0, 0, 0), (10, 0, 0), (20, 0, 0), (30, 0, 0), (40, 0, 0), (50, 0, 0)]"

definition gap_edges :: "(nat \<times> nat) list" where
  "gap_edges = [(0, 1), (1, 2), (3, 4), (4, 5)]"

definition gap_masks :: "bool list list" where
  "gap_masks = [[True, True, True, False, False, False], [False, False, False, True, True, True]]"

definition thin_radii :: "real list" where
  "thin_radii = [3, 3, 3, 3, 3, 3]"

definition thick_radii :: "real list" where
  "thick_radii = [6, 6, 6, 6, 6, 6]"

definition thin :: skeleton where
  "thin = \<lparr>vertices = gap_vertices, edges = gap_edges, radii = thin_radii\<rparr>"

definition thick :: skeleton where
  "thick = \<lparr>vertices = gap_vertices, edges = gap_edges, radii = thick_radii\<rparr>"

definition bridged_edges :: "(nat \<times> nat) list" where
  "bridged_edges = [(0, 1), (1, 2), (3, 4), (4, 5), (2, 3)]"

definition bridged :: skeleton where
  "bridged = \<lparr>vertices = gap_vertices, edges = bridged_edges, radii = thick_radii\<rparr>"

text \<open>
  A knot: the triangle \<open>0 - 1 - 2\<close>, a tick at 1 and at 2, and a path
  \<open>0 - 5 - 6 - 7\<close> that ends at the centroid of the triangle.
\<close>

definition knot_vertices :: "point list" where
  "knot_vertices = [(0, 0, 0), (6, 0, 0), (0, 6, 0), (9, 0, 0), (0, 9, 0),
     (- 3, 0, 0), (- 3, - 3, 0), (2, 2, 0)]"

definition knot_edges :: "(nat \<times> nat) list" where
  "knot_edges = [(0, 1), (1, 2), (0, 2), (1, 3), (2, 4), (0, 5), (5, 6), (6, 7)]"

definition knot_cycle :: "(nat \<times> nat) list" where
  "knot_cycle = [(1, 2), (2, 0), (0, 1)]"

definition star_edges :: "(nat \<times> nat) list" where
  "star_edges = [(1, 3), (2, 4), (0, 5), (5, 6), (6, 7), (0, 7), (1, 7), (2, 7)]"

text \<open>
  One vertex and no edge; and the two thick paths with a seventh vertex, of radius 100,
  in the middle of the gap.
\<close>

definition speck :: skeleton where
  "speck = \<lparr>vertices = [(0, 0, 0)], edges = [], radii = [1]\<rparr>"

definition crumb_vertices :: "point list" where
  "crumb_vertices = [(0, 0, 0), (10, 0, 0), (20, 0, 0), (30, 0, 0), (40, 0, 0), (50, 0, 0),
     (25, 0, 0)]"

definition crumb_radii :: "real list" where
  "crumb_radii = [6, 6, 6, 6, 6, 6, 100]"

definition crumb_masks :: "bool list list" where
  "crumb_masks = [[True, True, True, False, False, False, False],
     [False, False, False, True, True, True, False]]"

definition crumb :: skeleton where
  "crumb = \<lparr>vertices = crumb_vertices, edges = gap_edges, radii = crumb_radii\<rparr>"




subsection \<open>Adjacency\<close>

text \<open>
  The adjacency relation of an edge array, and the labels of the components that
  \<^verbatim>\<open>find_connected\<close> enumerates.
\<close>

definition adj :: "(nat \<times> nat) list \<Rightarrow> (nat \<times> nat) set" where
  "adj es = set es \<union> (set es)\<inverse>"

definition labels :: "(nat \<times> nat) list \<Rightarrow> nat list" where
  "labels es = np_unique (map (label es) (np_unique (flatten es)))"

text \<open>
  A whole piece: a connected skeleton in which every vertex is an end of an edge and
  the radii are aligned with the vertices.
\<close>

definition whole :: "skeleton \<Rightarrow> bool" where
  "whole c \<longleftrightarrow> vertices c \<noteq> [] \<and> length (radii c) = length (vertices c)
     \<and> set (flatten (edges c)) = {..<length (vertices c)}
     \<and> (\<forall>v < length (vertices c). label (edges c) v = 0)"

text \<open>
  Block form: the skeleton is the merge of its components, each of them whole.
\<close>

definition block_form :: "skeleton \<Rightarrow> bool" where
  "block_form r \<longleftrightarrow> simple_merge (components r) = r \<and> (\<forall>c \<in> set (components r). whole c)"

text \<open>
  A kite: the triangle \<open>0 - 1 - 2\<close> with a tick at 0, its detected cycle, and the
  edge array after the round on it.
\<close>

definition kite_vertices :: "point list" where
  "kite_vertices = [(0, 0, 0), (4, 0, 0), (0, 4, 0), (- 3, 0, 0)]"

definition kite_edges :: "(nat \<times> nat) list" where
  "kite_edges = [(0, 1), (1, 2), (0, 2), (0, 3)]"

definition kite_cycle :: "(nat \<times> nat) list" where
  "kite_cycle = [(1, 2), (2, 0), (0, 1)]"

definition kite_pruned :: "(nat \<times> nat) list" where
  "kite_pruned = [(0, 3), (0, 1)]"

subsection \<open>Edges on cycles\<close>

text \<open>
  An edge lies on a cycle when its ends are still connected after the edge is taken
  away.
\<close>

definition on_cycle :: "(nat \<times> nat) list \<Rightarrow> nat \<times> nat \<Rightarrow> bool" where
  "on_cycle es e \<longleftrightarrow> fst e \<noteq> snd e \<and> fst e \<in> set (reach (remove_edge es e) (snd e))"

definition cycle_edge_count :: "(nat \<times> nat) list \<Rightarrow> nat" where
  "cycle_edge_count es = length (filter (on_cycle es) es)"

subsection \<open>The states of the cycle loop\<close>

text \<open>
  The states at the head of a round of the \<^verbatim>\<open>while True\<close> loop of
  \<^verbatim>\<open>_remove_loops\<close>, from a first state on.
\<close>

inductive loops_reach ::
  "point list \<Rightarrow> (nat \<times> nat) list \<times> (nat \<times> nat) list
     \<Rightarrow> (nat \<times> nat) list \<times> (nat \<times> nat) list \<Rightarrow> bool"
  for nodes st where
  start: "loops_reach nodes st st"
| round: "loops_reach nodes st st1 \<Longrightarrow> find_cycle (snd st1) (length nodes) \<noteq> []
    \<Longrightarrow> loop_step nodes st1 (find_cycle (snd st1) (length nodes)) = Inr st2
    \<Longrightarrow> loops_reach nodes st st2"

subsection \<open>The states of the pruning loop\<close>

text \<open>
  The states at the head of a round of the \<^verbatim>\<open>while len(dgraph) > 1\<close> loop, from a
  first state on.
\<close>

inductive ticks_reach ::
  "real \<Rightarrow> nat list \<Rightarrow> dgraph \<times> (nat \<Rightarrow> int) \<times> (nat \<times> nat) list
     \<Rightarrow> dgraph \<times> (nat \<Rightarrow> int) \<times> (nat \<times> nat) list \<Rightarrow> bool"
  for threshold terminal_nodes st where
  start: "ticks_reach threshold terminal_nodes st st"
| round: "ticks_reach threshold terminal_nodes st st1 \<Longrightarrow> length (fst st1) > 1
    \<Longrightarrow> ticks_step threshold terminal_nodes st1 = Inr (Some st2)
    \<Longrightarrow> ticks_reach threshold terminal_nodes st st2"

definition counts_ok :: "(nat \<Rightarrow> int) \<Rightarrow> bool" where
  "counts_ok bc \<longleftrightarrow> (\<forall>v. bc v \<le> 0 \<or> 3 \<le> bc v)"

definition keys_ok :: "dgraph \<Rightarrow> bool" where
  "keys_ok dg \<longleftrightarrow> (\<forall>k \<in> set (map fst dg). distinct k)"

section \<open>Evaluation\<close>

text \<open>Distances along one axis, and rules that evaluate arguments before bodies.\<close>

lemma norm3_x: "norm3 (x1, y, z) (x2, y, z) = \<bar>x1 - x2\<bar>"
  by (simp add: norm3_def)

lemma norm3_y: "norm3 (x, y1, z) (x, y2, z) = \<bar>y1 - y2\<bar>"
  by (simp add: norm3_def)

lemma bind_result_weak_cong: "x = y \<Longrightarrow> bind_result x f = bind_result y f"
  by simp

lemma four: "(4::nat) = Suc (Suc (Suc (Suc 0)))"
  by simp

lemma simple_merge_single: "simple_merge [s] = s"
  by (simp add: empty_skeleton_def)

lemma empty_empty_skeleton: "empty empty_skeleton"
  by (simp add: empty_def empty_skeleton_def)

lemma consolidate_empty_skeleton: "consolidate empty_skeleton = empty_skeleton"
  by (simp add: consolidate_def empty_skeleton_def np_unique_def restrict_def)

subsection \<open>The fork through the four passes\<close>

lemma fork_sel: "vertices fork = fork_vertices" "edges fork = fork_edges" "radii fork = fork_radii"
  by (simp_all add: fork_def)

lemma fork_not_empty: "\<not> empty fork"
  by (simp add: fork_def fork_vertices_def fork_edges_def empty_def)

lemma components_fork: "components fork = [fork]"
  by (simp add: fork_def fork_vertices_def fork_edges_def fork_radii_def components_def
      component_def label_def reach_def grow_def restrict_def reindex_def upt_conv_Cons)

lemma cable_length_fork: "cable_length fork = 11"
  by (simp add: fork_def fork_vertices_def fork_edges_def cable_length_def norm3_x norm3_y)

lemma consolidate_fork: "consolidate fork = fork"
  by (simp add: fork_def fork_vertices_def fork_edges_def fork_radii_def consolidate_def
      np_unique_def restrict_def reindex_def)

lemma remove_dust_fork: "remove_dust fork 10 = fork"
  by (simp add: remove_dust_def components_fork cable_length_fork consolidate_fork
      simple_merge_single fork_not_empty del: simple_merge.simps)

lemma find_cycle_fork: "find_cycle fork_edges n = []"
  by (simp add: fork_edges_def find_cycle_def remove_edge_def)

lemma remove_loops1_fork: "remove_loops1 4 fork = Inr fork"
  by (simp add: remove_loops1_def fork_def find_cycle_fork four)

lemma remove_loops_fork: "remove_loops 4 fork = Inr fork"
  by (simp add: remove_loops_def fork_not_empty components_fork remove_loops1_fork
      simple_merge_single consolidate_fork del: simple_merge.simps)

lemma find_connected_fork: "find_connected fork_vertices fork_edges = [[True, True, True, True]]"
  by (simp add: fork_vertices_def fork_edges_def find_connected_def label_def reach_def
      grow_def np_unique_def upt_conv_Cons)

lemma connect_pieces_fork: "connect_pieces 4 fork = Inr fork"
  using consolidate_fork
  by (simp add: connect_pieces_def fork_not_empty fork_def find_connected_fork
      combination_pairs_def four)

lemma create_distance_graph_fork: "create_distance_graph 4 fork = Inr fork_dgraph"
  by (simp add: create_distance_graph_def fork_def fork_edges_def fork_vertices_def
      fork_dgraph_def terminal_nodes_of_def branch_nodes_of_def np_unique_def unique_count_def
      four norm3_x norm3_y dict_set_def)

lemma terminal_nodes_fork: "terminal_nodes_of fork_edges = [0, 2, 3]"
  by (simp add: fork_edges_def terminal_nodes_of_def np_unique_def unique_count_def)

lemma graph_fork: "add_edges_from [] fork_edges = fork_edges"
  by (simp add: fork_edges_def add_edges_from_def add_edge_def has_edge_def)

lemma ticks_loop_fork:
  "ticks_loop 4 [0, 2, 3] (fork_dgraph, initial_branch_counts fork_edges, fork_edges) = Inr stem_edges"
  by (simp add: ticks_loop.simps ticks_step_def fork_dgraph_def fork_edges_def stem_edges_def
      initial_branch_counts_def unique_count_def shortest_path_def remove_edges_from_def
      remove_edge_def dict_del_def fuse_edge_def np_unique_def dict_set_def Let_def
      cong: let_weak_cong bind_result_weak_cong)

lemma consolidate_pruned_fork: "consolidate (fork\<lparr>edges := stem_edges\<rparr>) = stem"
  by (simp add: consolidate_def stem_edges_def np_unique_def restrict_def reindex_def fork_def
      fork_vertices_def fork_radii_def stem_def)

lemma remove_ticks1_fork: "remove_ticks1 4 fork 4 = Inr stem"
  by (simp add: remove_ticks1_def fork_not_empty create_distance_graph_fork ticks_loop_fork
      terminal_nodes_fork graph_fork fork_sel consolidate_pruned_fork)

lemma consolidate_stem: "consolidate stem = stem"
  by (simp add: consolidate_def stem_edges_def np_unique_def restrict_def reindex_def stem_def)

lemma remove_ticks_fork: "remove_ticks 4 fork 4 = Inr stem"
  by (simp add: remove_ticks_def fork_not_empty components_fork remove_ticks1_fork
      simple_merge_single consolidate_stem del: simple_merge.simps)

lemma trim_skeleton_fork: "trim_skeleton 4 fork 10 4 = Inr stem"
  by (simp add: trim_skeleton_def remove_dust_fork remove_loops_fork connect_pieces_fork
      remove_ticks_fork)

subsection \<open>The stem through dust removal\<close>

lemma components_stem: "components stem = [stem]"
  by (simp add: stem_def stem_edges_def components_def component_def label_def reach_def
      grow_def restrict_def reindex_def upt_conv_Cons)

lemma cable_length_stem: "cable_length stem = 8"
  by (simp add: stem_def stem_edges_def cable_length_def norm3_x)

lemma stem_not_empty: "\<not> empty stem"
  by (simp add: stem_def stem_edges_def empty_def)

lemma remove_dust_stem: "remove_dust stem 10 = empty_skeleton"
  by (simp add: remove_dust_def components_stem cable_length_stem stem_not_empty
      consolidate_empty_skeleton)

section \<open>The empty guard\<close>

text \<open>Every pass starts with \<^verbatim>\<open>if skeleton.empty(): return skeleton\<close>.\<close>

lemma passes_empty:
  assumes "empty s"
  shows "remove_dust s d = s" and "remove_loops fuel s = Inr s"
    and "connect_pieces fuel s = Inr s" and "remove_ticks fuel s t = Inr s"
  using assms
  by (simp_all add: remove_dust_def remove_loops_def connect_pieces_def remove_ticks_def)

lemma trim_skeleton_empty: "empty s \<Longrightarrow> trim_skeleton fuel s d t = Inr s"
  by (simp add: trim_skeleton_def passes_empty)

lemma trim_skeleton_stem: "trim_skeleton 4 stem 10 4 = Inr empty_skeleton"
  by (simp add: trim_skeleton_def remove_dust_stem passes_empty empty_empty_skeleton)

section \<open>Minimum, first index, rows\<close>

lemma fold_min_le: "fold min xs (a::real) \<le> a"
proof (induction xs arbitrary: a)
  case Nil
  then show ?case by simp
next
  case (Cons x xs)
  have "fold min xs (min x a) \<le> min x a" by (rule Cons.IH)
  then show ?case by simp
qed

lemma fold_min_le_elem: "x \<in> set xs \<Longrightarrow> fold min xs (a::real) \<le> x"
proof (induction xs arbitrary: a)
  case Nil
  then show ?case by simp
next
  case (Cons y ys)
  show ?case
  proof (cases "x = y")
    case True
    have "fold min ys (min y a) \<le> min y a" by (rule fold_min_le)
    with True show ?thesis by simp
  next
    case False
    with Cons show ?thesis by simp
  qed
qed

lemma fold_min_in: "fold min xs (a::real) \<in> insert a (set xs)"
  by (induction xs arbitrary: a) (auto simp: min_def)

lemma np_min_le: "x \<in> set xs \<Longrightarrow> np_min xs \<le> x"
  unfolding np_min_def
  by (cases xs) (auto intro: fold_min_le fold_min_le_elem)

lemma np_min_in: "xs \<noteq> [] \<Longrightarrow> np_min xs \<in> set xs"
  unfolding np_min_def
  using fold_min_in [of "tl xs" "hd xs"] by (cases xs) auto

lemma first_index_less: "v \<in> set xs \<Longrightarrow> first_index xs v < length xs"
  by (induction xs) auto

lemma nth_first_index: "v \<in> set xs \<Longrightarrow> xs ! first_index xs v = v"
  by (induction xs) auto

lemma argmin_less: "xs \<noteq> [] \<Longrightarrow> argmin xs < length xs"
  by (simp add: argmin_def first_index_less np_min_in)

lemma nth_argmin: "xs \<noteq> [] \<Longrightarrow> xs ! argmin xs = np_min xs"
  by (simp add: argmin_def nth_first_index np_min_in)

lemma set_np_where: "set (np_where m) = {i. i < length m \<and> m ! i}"
  by (auto simp: np_where_def)

lemma argmin_least: "i < length xs \<Longrightarrow> xs ! argmin xs \<le> xs ! i"
proof -
  assume i: "i < length xs"
  then have ne: "xs \<noteq> []" by auto
  from i have "np_min xs \<le> xs ! i"
    by (intro np_min_le) simp
  with nth_argmin [OF ne] show ?thesis by simp
qed

lemma bind_result_InrE:
  assumes "bind_result x f = Inr y"
  obtains z where "x = Inr z" and "f z = Inr y"
  using assms by (cases x) auto

text \<open>Deleting the rows that \<open>find_row\<close> finds is filtering.\<close>

lemma np_delete_find_row: "np_delete arr (find_row arr row) = filter (\<lambda>x. x \<noteq> row) arr"
proof -
  have "filter (\<lambda>p. fst p \<notin> set (find_row arr row)) (enumerate 0 arr)
      = filter (\<lambda>p. snd p \<noteq> row) (enumerate 0 arr)"
    by (rule filter_cong) (auto simp: find_row_def in_set_enumerate_eq)
  then have "np_delete arr (find_row arr row)
      = map snd (filter ((\<lambda>x. x \<noteq> row) \<circ> snd) (enumerate 0 arr))"
    by (simp add: np_delete_def comp_def)
  also have "\<dots> = filter (\<lambda>x. x \<noteq> row) (map snd (enumerate 0 arr))"
    by (simp only: filter_map)
  finally show ?thesis
    by simp
qed

lemma sort_row_idem: "sort_row (sort_row e) = sort_row e"
  by (simp add: sort_row_def)

lemma remove_row_step:
  "(let idx = find_row arr row in if idx = [] then arr else np_delete arr idx)
     = filter (\<lambda>x. x \<noteq> row) arr"
proof (cases "find_row arr row = []")
  case True
  then have "\<forall>x \<in> set arr. x \<noteq> row"
    by (auto simp: find_row_def filter_empty_conv in_set_conv_nth)
  with True show ?thesis by (simp add: Let_def)
next
  case False
  then show ?thesis by (simp add: Let_def np_delete_find_row)
qed

lemma fold_filter_rows:
  "fold (\<lambda>row arr. filter (\<lambda>x. x \<noteq> row) arr) rows arr = filter (\<lambda>x. x \<notin> set rows) arr"
  by (induction rows arbitrary: arr) (auto intro: filter_cong)

lemma remove_row_eq:
  "remove_row es rows = filter (\<lambda>e. e \<notin> set (map sort_row rows)) (map sort_row es)"
  unfolding remove_row_def remove_row_step by (rule fold_filter_rows)

lemma length_remove_row_le: "length (remove_row es rows) \<le> length es"
  by (simp add: remove_row_eq le_trans [OF length_filter_le])

lemma length_remove_row:
  assumes "distinct (map sort_row rows)" and "set (map sort_row rows) \<subseteq> set (map sort_row es)"
  shows "length (remove_row es rows) + length rows \<le> length es"
proof -
  let ?R = "set (map sort_row rows)"
  let ?xs = "map sort_row es"
  have "set (filter (\<lambda>e. e \<in> ?R) ?xs) = ?R"
    using assms(2) by auto
  then have "card ?R \<le> length (filter (\<lambda>e. e \<in> ?R) ?xs)"
    by (metis card_length)
  moreover have "card ?R = length rows"
    using distinct_card [OF assms(1)] by simp
  moreover have "length (filter (\<lambda>e. e \<in> ?R) ?xs) + length (filter (\<lambda>e. e \<notin> ?R) ?xs) = length es"
    using sum_length_filter_compl [of "\<lambda>e. e \<in> ?R" ?xs] by simp
  ultimately show ?thesis
    by (simp add: remove_row_eq)
qed

subsection \<open>The gap\<close>

lemma find_connected_gap: "find_connected gap_vertices gap_edges = gap_masks"
  by (simp add: gap_vertices_def gap_edges_def gap_masks_def find_connected_def label_def
      reach_def grow_def np_unique_def upt_conv_Cons)

lemma combination_pairs_2: "combination_pairs (Suc (Suc 0)) = [(0, 1)]"
  by (simp add: combination_pairs_def upt_conv_Cons)

lemma bridge_thin: "bridge gap_vertices thin_radii (gap_masks ! 0) (gap_masks ! Suc 0) = None"
  by (simp add: gap_vertices_def gap_masks_def thin_radii_def bridge_def np_where_def
      upt_conv_Cons norm3_x np_min_def argmin_def Let_def cong: let_weak_cong)

lemma bridge_thick: "bridge gap_vertices thick_radii (gap_masks ! 0) (gap_masks ! Suc 0) = Some (2, 3)"
  by (simp add: gap_vertices_def gap_masks_def thick_radii_def bridge_def np_where_def
      upt_conv_Cons norm3_x np_min_def argmin_def Let_def cong: let_weak_cong)

lemma length_gap_masks: "length gap_masks = Suc (Suc 0)"
  by (simp add: gap_masks_def)

lemma connect_loop_thin: "connect_loop 4 gap_vertices thin_radii gap_edges = Inr gap_edges"
  by (simp add: four find_connected_gap length_gap_masks combination_pairs_2 bridge_thin)

lemma find_connected_bridged:
  "find_connected gap_vertices (gap_edges @ [(2, 3)]) = [[True, True, True, True, True, True]]"
  by (simp add: gap_vertices_def gap_edges_def find_connected_def label_def
      reach_def grow_def np_unique_def upt_conv_Cons)

lemma connect_loop_thick:
  "connect_loop 4 gap_vertices thick_radii gap_edges = Inr bridged_edges"
  by (simp add: four find_connected_gap length_gap_masks combination_pairs_2 bridge_thick
      find_connected_bridged combination_pairs_def)
    (simp add: gap_edges_def bridged_edges_def)

lemma thin_not_empty: "\<not> empty thin"
  by (simp add: thin_def gap_vertices_def gap_edges_def empty_def)

lemma thick_not_empty: "\<not> empty thick"
  by (simp add: thick_def gap_vertices_def gap_edges_def empty_def)

lemma consolidate_thin: "consolidate thin = thin"
  by (simp add: thin_def gap_vertices_def gap_edges_def thin_radii_def consolidate_def
      np_unique_def restrict_def reindex_def)

lemma consolidate_bridged: "consolidate bridged = bridged"
  by (simp add: bridged_def gap_vertices_def bridged_edges_def thick_radii_def consolidate_def
      np_unique_def restrict_def reindex_def)

lemma connect_pieces_thin: "connect_pieces 4 thin = Inr thin"
  using consolidate_thin
  by (simp add: connect_pieces_def thin_not_empty) (simp add: thin_def connect_loop_thin)

lemma connect_pieces_thick: "connect_pieces 4 thick = Inr bridged"
  using consolidate_bridged
  by (simp add: connect_pieces_def thick_not_empty) (simp add: thick_def bridged_def connect_loop_thick)

subsection \<open>The knot\<close>

lemma find_cycle_knot: "find_cycle knot_edges n = knot_cycle"
  by (simp add: find_cycle_def knot_edges_def knot_cycle_def remove_edge_def Let_def
      cong: let_weak_cong)

lemma graph_knot: "add_edges_from [] knot_edges = knot_edges"
  by (simp add: knot_edges_def add_edges_from_def add_edge_def has_edge_def)

lemma branch_cycle_knot: "branch_cycle_of knot_edges knot_cycle = [0, 1, 2]"
  by (simp add: branch_cycle_of_def nodes_cycle_of_def knot_edges_def knot_cycle_def
      sort_row_def np_unique_def unique_count_def)

lemma loop_step_knot:
  "loop_step knot_vertices (knot_edges, knot_edges) knot_cycle = Inr (star_edges, star_edges)"
  by (simp add: loop_step_def branch_cycle_knot Let_def cong: let_weak_cong)
    (simp add: knot_vertices_def knot_edges_def knot_cycle_def star_edges_def centroid_of_def
      argmin_def np_min_def sort_row_def remove_row_def find_row_def np_delete_def
      remove_edges_from_def remove_edge_def add_edges_from_def add_edge_def has_edge_def
      upt_conv_Cons enumerate_eq_zip Let_def power2_eq_square cong: let_weak_cong)

lemma cycle_edge_count_knot: "cycle_edge_count knot_edges = 3"
  by (simp add: cycle_edge_count_def on_cycle_def knot_edges_def remove_edge_def reach_def grow_def)

lemma cycle_edge_count_star: "cycle_edge_count star_edges = 4"
  by (simp add: cycle_edge_count_def on_cycle_def star_edges_def remove_edge_def reach_def grow_def)

section \<open>One round of loop removal\<close>

lemma branch_cases:
  assumes "3 \<le> length (branch_cycle_of es found)"
  shows "length (branch_cycle_of es found) \<noteq> 1" "length (branch_cycle_of es found) \<noteq> 2"
    "length (branch_cycle_of es found) \<noteq> 0"
  using assms by linarith+

lemma loop_step_multi:
  assumes B: "3 \<le> length (branch_cycle_of es found)"
  shows "loop_step nodes (G, es) found =
     Inr (add_edges_from (remove_edges_from G (map sort_row found))
            (filter (\<lambda>e. fst e \<noteq> argmin (map (\<lambda>p. sqdist p (centroid_of (map (\<lambda>b. nodes ! b) (branch_cycle_of es found)))) nodes))
               (map (\<lambda>b. (b, argmin (map (\<lambda>p. sqdist p (centroid_of (map (\<lambda>b. nodes ! b) (branch_cycle_of es found)))) nodes)))
                  (branch_cycle_of es found))),
          remove_row es (map sort_row found)
            @ filter (\<lambda>e. fst e \<noteq> argmin (map (\<lambda>p. sqdist p (centroid_of (map (\<lambda>b. nodes ! b) (branch_cycle_of es found)))) nodes))
               (map (\<lambda>b. (b, argmin (map (\<lambda>p. sqdist p (centroid_of (map (\<lambda>b. nodes ! b) (branch_cycle_of es found)))) nodes)))
                  (branch_cycle_of es found)))"
  unfolding loop_step_def Let_def
  by (simp only: branch_cases [OF B] if_False fst_conv snd_conv)

lemma loop_step_multi_rows:
  assumes B: "3 \<le> length (branch_cycle_of es found)"
    and step: "loop_step nodes (G, es) found = Inr (G', es')"
  shows "\<exists>new. es' = remove_row es (map sort_row found) @ new
           \<and> length new \<le> length (branch_cycle_of es found)"
proof -
  let ?v = "argmin (map (\<lambda>p. sqdist p (centroid_of (map (\<lambda>b. nodes ! b) (branch_cycle_of es found)))) nodes)"
  let ?new = "filter (\<lambda>e. fst e \<noteq> ?v) (map (\<lambda>b. (b, ?v)) (branch_cycle_of es found))"
  from loop_step_multi [OF B, of nodes G] step
  have "es' = remove_row es (map sort_row found) @ ?new"
    by simp
  moreover have "length ?new \<le> length (branch_cycle_of es found)"
    by (rule le_trans [OF length_filter_le]) simp
  ultimately show ?thesis
    by blast
qed

lemma loop_step_none:
  assumes "length (branch_cycle_of es found) = 0"
  shows "loop_step nodes (G, es) found =
     Inr (remove_edges_from G (map sort_row found), remove_row es (map sort_row found))"
  unfolding loop_step_def Let_def
  by (simp only: assms if_False if_True fst_conv snd_conv) simp

lemma loop_step_one:
  assumes "length (branch_cycle_of es found) = 1"
  shows "\<exists>e. loop_step nodes (G, es) found =
     Inr (add_edge (remove_edges_from G (map sort_row found)) e,
          remove_row es (map sort_row found) @ [e])"
  unfolding loop_step_def Let_def
  by (simp only: assms if_False if_True fst_conv snd_conv) simp

lemma loop_step_two:
  assumes "length (branch_cycle_of es found) = 2"
    and "loop_step nodes (G, es) found = Inr (G', es')"
  shows "\<exists>rows. set rows \<subseteq> set (map sort_row found) \<and> es' = remove_row es rows"
proof -
  from assms(2) obtain p where
    "(let edge_path = map sort_row (path2edge p);
          edge_path' = filter (\<lambda>c. int 1 - int (count_list edge_path c) \<noteq> 0) (map sort_row found)
      in Inr (remove_edges_from G edge_path', remove_row es edge_path')) = Inr (G', es')"
    unfolding loop_step_def Let_def
    by (simp only: assms(1) if_False if_True fst_conv snd_conv) (auto elim: bind_result_InrE)
  then have "es' = remove_row es
      (filter (\<lambda>c. int 1 - int (count_list (map sort_row (path2edge p)) c) \<noteq> 0) (map sort_row found))"
    by (simp add: Let_def)
  then show ?thesis
    by (intro exI [of _ "filter (\<lambda>c. int 1 - int (count_list (map sort_row (path2edge p)) c) \<noteq> 0)
        (map sort_row found)"]) auto
qed

lemma set_new_edges:
  "set (filter (\<lambda>e. fst e \<noteq> v) (map (\<lambda>b. (b, v)) B))
     = {(b, v) | b. b \<in> set B \<and> b \<noteq> (v::nat)}"
proof (rule set_eqI)
  fix e :: "nat \<times> nat"
  show "e \<in> set (filter (\<lambda>e. fst e \<noteq> v) (map (\<lambda>b. (b, v)) B))
    \<longleftrightarrow> e \<in> {(b, v) | b. b \<in> set B \<and> b \<noteq> v}"
    by (cases e) (simp add: image_iff, blast)
qed

section \<open>One round of tick removal\<close>

lemma counts_ok_initial: "counts_ok (initial_branch_counts es)"
  by (simp add: counts_ok_def initial_branch_counts_def)

lemma keys_ok_dict_set: "keys_ok dg \<Longrightarrow> distinct k \<Longrightarrow> keys_ok (dict_set dg k w)"
  by (auto simp: keys_ok_def dict_set_def)

lemma keys_ok_filter: "keys_ok dg \<Longrightarrow> keys_ok (filter P dg)"
  by (auto simp: keys_ok_def)

lemma dfs_keys_ok:
  "dfs fuel vs es crit stack dg = Inr dg' \<Longrightarrow> keys_ok dg \<Longrightarrow> keys_ok dg'"
proof (induction fuel vs es crit stack dg rule: dfs.induct)
  case (1 fuel vs es critical_points distgraph)
  then show ?case by simp
next
  case (2 vs es critical_points frame stack distgraph)
  then show ?case by simp
next
  case (3 fuel vs es critical_points node parent d rt stack distgraph)
  let ?emit = "node \<in> set critical_points \<and> node \<noteq> rt"
  let ?dg = "if ?emit then dict_set distgraph [rt, node] d else distgraph"
  have "keys_ok ?dg"
    using "3.prems"(2) by (auto intro: keys_ok_dict_set)
  with "3.IH" [OF refl refl refl refl refl] "3.prems"(1) show ?case
    by (simp add: Let_def)
qed

lemma keys_ok_Nil: "keys_ok []"
  by (simp add: keys_ok_def)

lemma create_distance_graph_keys_ok:
  assumes "create_distance_graph fuel s = Inr dg"
  shows "keys_ok dg"
proof (cases "terminal_nodes_of (edges s)")
  case Nil
  with assms show ?thesis
    by (simp add: create_distance_graph_def)
next
  case (Cons t ts)
  with assms have "dfs fuel (vertices s) (edges s)
      (terminal_nodes_of (edges s) @ branch_nodes_of (edges s)) [(t, None, 0, t)] [] = Inr dg"
    by (simp add: create_distance_graph_def Let_def)
  then show ?thesis
    using keys_ok_Nil by (rule dfs_keys_ok)
qed

lemma fuse_edge_ok:
  assumes "fuse_edge v (dg, bc) = Inr (dg', bc')" and "keys_ok dg"
  shows "keys_ok dg'" and "bc' = bc(v := 0)"
proof -
  let ?unify = "filter (\<lambda>p. v \<in> set (fst p)) dg"
  let ?items = "np_unique (concat (map fst ?unify))"
  from assms(1) have dg': "dg' = dict_set (filter (\<lambda>p. v \<notin> set (fst p)) dg)
      (removeAll v ?items) (sum_list (map snd ?unify))" and bc': "bc' = bc(v := 0)"
    by (auto simp: fuse_edge_def Let_def split: if_splits)
  have "distinct (removeAll v ?items)"
    by (simp add: np_unique_def distinct_removeAll)
  with assms(2) show "keys_ok dg'"
    unfolding dg' by (intro keys_ok_dict_set keys_ok_filter)
  show "bc' = bc(v := 0)" by (rule bc')
qed

lemma terminal_superedges_subset:
  "terminal_superedges_of T dg = Inr ts \<Longrightarrow> set ts \<subseteq> set dg"
proof (induction dg arbitrary: ts)
  case Nil
  then show ?case by simp
next
  case (Cons p dg)
  from Cons.prems obtain t r where r: "terminal_superedges_of T dg = Inr r"
    and ts: "ts = (if t then p # r else r)"
    by (cases "is_terminal_superedge T (fst p)"; cases "terminal_superedges_of T dg") auto
  from Cons.IH [OF r] ts show ?case by auto
qed

lemma min_entry_in: "min_entry d = Some p \<Longrightarrow> p \<in> set d"
  by (induction d arbitrary: p) (auto split: option.splits if_splits)

lemma min_entry_least: "min_entry d = Some p \<Longrightarrow> q \<in> set d \<Longrightarrow> snd p \<le> snd q"
proof (induction d arbitrary: p)
  case Nil
  then show ?case by simp
next
  case (Cons x d)
  show ?case
  proof (cases "min_entry d")
    case None
    then have "d = []" by (cases d) (auto split: option.splits if_splits)
    with Cons.prems None show ?thesis by simp
  next
    case (Some m)
    have m: "q \<in> set d \<Longrightarrow> snd m \<le> snd q"
      by (rule Cons.IH [OF Some])
    from Cons.prems Some m show ?thesis
      by (auto split: if_splits)
  qed
qed

lemma ticks_step_SomeE:
  assumes step: "ticks_step thr T (dg, bc, G) = Inr (Some (dg', bc', G'))"
  obtains ts e1 e2 w p st2 st3 where
    "terminal_superedges_of T dg = Inr ts" and "min_entry ts = Some ([e1, e2], w)"
    and "\<not> (bc e1 = 1 \<and> bc e2 = 1)" and "\<not> thr \<le> w"
    and "shortest_path G e1 e2 = Inr p"
    and "(if (bc(e1 := bc e1 - 1, e2 := (bc(e1 := bc e1 - 1)) e2 - 1)) e1 = 2
          then fuse_edge e1 (dict_del dg [e1, e2], bc(e1 := bc e1 - 1, e2 := (bc(e1 := bc e1 - 1)) e2 - 1))
          else Inr (dict_del dg [e1, e2], bc(e1 := bc e1 - 1, e2 := (bc(e1 := bc e1 - 1)) e2 - 1))) = Inr st2"
    and "(if snd st2 e2 = 2 then fuse_edge e2 st2 else Inr st2) = Inr st3"
    and "dg' = fst st3" and "bc' = snd st3" and "G' = remove_edges_from G (path2edge p)"
proof -
  from step obtain ts where ts: "terminal_superedges_of T dg = Inr ts"
    by (cases "terminal_superedges_of T dg") (auto simp: ticks_step_def)
  with step obtain k w where m: "min_entry ts = Some (k, w)"
    by (cases "min_entry ts") (auto simp: ticks_step_def)
  with step ts obtain e1 e2 where k: "k = [e1, e2]"
    by (auto simp: ticks_step_def split: list.splits)
  let ?bc2 = "bc(e1 := bc e1 - 1, e2 := (bc(e1 := bc e1 - 1)) e2 - 1)"
  let ?rest = "bind_result (shortest_path G e1 e2)
           (\<lambda>p. bind_result
              (if ?bc2 e1 = 2 then fuse_edge e1 (dict_del dg [e1, e2], ?bc2)
               else Inr (dict_del dg [e1, e2], ?bc2))
              (\<lambda>st2. bind_result (if snd st2 e2 = 2 then fuse_edge e2 st2 else Inr st2)
                 (\<lambda>st3. Inr (Some (fst st3, snd st3, remove_edges_from G (path2edge p))))))"
  from step have eq: "(if bc e1 = 1 \<and> bc e2 = 1 then Inr None
       else if thr \<le> w then Inr None else ?rest) = Inr (Some (dg', bc', G'))"
    unfolding ticks_step_def Let_def
    by (simp only: ts m k fst_conv snd_conv bind_result.simps option.case prod.case list.case)
  then have b1: "\<not> (bc e1 = 1 \<and> bc e2 = 1)" and b2: "\<not> thr \<le> w"
    and rest: "?rest = Inr (Some (dg', bc', G'))"
    by (auto split: if_splits)
  from rest obtain p where p: "shortest_path G e1 e2 = Inr p"
    and r1: "bind_result
              (if ?bc2 e1 = 2 then fuse_edge e1 (dict_del dg [e1, e2], ?bc2)
               else Inr (dict_del dg [e1, e2], ?bc2))
              (\<lambda>st2. bind_result (if snd st2 e2 = 2 then fuse_edge e2 st2 else Inr st2)
                 (\<lambda>st3. Inr (Some (fst st3, snd st3, remove_edges_from G (path2edge p)))))
            = Inr (Some (dg', bc', G'))"
    by (rule bind_result_InrE)
  from r1 obtain st2 where st2: "(if ?bc2 e1 = 2 then fuse_edge e1 (dict_del dg [e1, e2], ?bc2)
               else Inr (dict_del dg [e1, e2], ?bc2)) = Inr st2"
    and r2: "bind_result (if snd st2 e2 = 2 then fuse_edge e2 st2 else Inr st2)
                 (\<lambda>st3. Inr (Some (fst st3, snd st3, remove_edges_from G (path2edge p))))
            = Inr (Some (dg', bc', G'))"
    by (rule bind_result_InrE)
  from r2 obtain st3 where st3: "(if snd st2 e2 = 2 then fuse_edge e2 st2 else Inr st2) = Inr st3"
    and r3: "Inr (Some (fst st3, snd st3, remove_edges_from G (path2edge p)))
            = (Inr (Some (dg', bc', G')) :: error + (dgraph \<times> (nat \<Rightarrow> int) \<times> (nat \<times> nat) list) option)"
    by (rule bind_result_InrE)
  from r3 have "dg' = fst st3" "bc' = snd st3" "G' = remove_edges_from G (path2edge p)"
    by simp_all
  with ts m [unfolded k] b1 b2 p st2 st3 show thesis
    by (rule that)
qed

lemma ticks_step_ok:
  assumes step: "ticks_step thr T (dg, bc, G) = Inr (Some (dg', bc', G'))"
    and keys: "keys_ok dg" and counts: "counts_ok bc"
  shows "keys_ok dg' \<and> counts_ok bc'"
proof -
  from step obtain ts e1 e2 w p st2 st3 where
    ts: "terminal_superedges_of T dg = Inr ts" and m: "min_entry ts = Some ([e1, e2], w)"
    and st2: "(if (bc(e1 := bc e1 - 1, e2 := (bc(e1 := bc e1 - 1)) e2 - 1)) e1 = 2
          then fuse_edge e1 (dict_del dg [e1, e2], bc(e1 := bc e1 - 1, e2 := (bc(e1 := bc e1 - 1)) e2 - 1))
          else Inr (dict_del dg [e1, e2], bc(e1 := bc e1 - 1, e2 := (bc(e1 := bc e1 - 1)) e2 - 1))) = Inr st2"
    and st3: "(if snd st2 e2 = 2 then fuse_edge e2 st2 else Inr st2) = Inr st3"
    and res: "dg' = fst st3" "bc' = snd st3"
    by (rule ticks_step_SomeE)
  from min_entry_in [OF m] terminal_superedges_subset [OF ts] have "([e1, e2], w) \<in> set dg"
    by auto
  with keys have ne: "e1 \<noteq> e2"
    by (force simp: keys_ok_def)
  define bc2 where "bc2 = bc(e1 := bc e1 - 1, e2 := bc e2 - 1)"
  have bc2: "bc(e1 := bc e1 - 1, e2 := (bc(e1 := bc e1 - 1)) e2 - 1) = bc2"
    using ne by (simp add: bc2_def)
  note st2' = st2 [unfolded bc2]
  have k1: "keys_ok (dict_del dg [e1, e2])"
    unfolding dict_del_def using keys by (rule keys_ok_filter)
  have s2: "keys_ok (fst st2) \<and> snd st2 = (if bc2 e1 = 2 then bc2(e1 := 0) else bc2)"
  proof (cases "bc2 e1 = 2")
    case True
    with st2' have "fuse_edge e1 (dict_del dg [e1, e2], bc2) = Inr (fst st2, snd st2)"
      by simp
    from fuse_edge_ok [OF this k1] True show ?thesis by simp
  next
    case False
    with st2' k1 show ?thesis by auto
  qed
  have s3: "keys_ok (fst st3) \<and> snd st3 = (if snd st2 e2 = 2 then (snd st2)(e2 := 0) else snd st2)"
  proof (cases "snd st2 e2 = 2")
    case True
    with st3 have "fuse_edge e2 (fst st2, snd st2) = Inr (fst st3, snd st3)"
      by simp
    from fuse_edge_ok [OF this] s2 True show ?thesis by simp
  next
    case False
    with st3 s2 show ?thesis by auto
  qed
  have "bc' v \<le> 0 \<or> 3 \<le> bc' v" for v
  proof -
    from counts have c: "bc u \<le> 0 \<or> 3 \<le> bc u" for u
      by (simp add: counts_ok_def)
    from c [of v] c [of e1] c [of e2] ne show ?thesis
      unfolding res using s2 s3 by (auto simp: bc2_def split: if_splits)
  qed
  with s3 res show ?thesis
    by (simp add: counts_ok_def)
qed

subsection \<open>The closest pair of two components\<close>

lemma bridge_closest_pair:
  assumes P: "np_where P \<noteq> []" and Q: "np_where Q \<noteq> []"
  shows "\<exists>p q. p \<in> set (np_where P) \<and> q \<in> set (np_where Q)
           \<and> (\<forall>p' \<in> set (np_where P). \<forall>q' \<in> set (np_where Q).
                  norm3 (nodes ! p) (nodes ! q) \<le> norm3 (nodes ! p') (nodes ! q'))
           \<and> bridge nodes rs P Q =
               (if rs ! p + rs ! q \<ge> norm3 (nodes ! p) (nodes ! q) then Some (p, q) else None)"
proof -
  define Pi where "Pi = np_where P"
  define Qi where "Qi = np_where Q"
  define Pn where "Pn = map (\<lambda>i. nodes ! i) Pi"
  define Qn where "Qn = map (\<lambda>i. nodes ! i) Qi"
  define ds where "ds = map (\<lambda>p. np_min (map (norm3 p) Qn)) Pn"
  define idx where "idx = map (\<lambda>p. argmin (map (norm3 p) Qn)) Pn"
  define k where "k = first_index ds (np_min ds)"
  define p where "p = Pi ! k"
  define q where "q = Qi ! (idx ! k)"
  have br: "bridge nodes rs P Q = (if rs ! p + rs ! q \<ge> np_min ds then Some (p, q) else None)"
    unfolding p_def q_def k_def idx_def ds_def Qn_def Pn_def Qi_def Pi_def
    by (simp add: bridge_def Let_def)
  have Qn_ne: "Qn \<noteq> []"
    using Q by (simp add: Qn_def Qi_def)
  have ds_ne: "ds \<noteq> []"
    using P by (simp add: ds_def Pn_def Pi_def)
  have k_less: "k < length Pi"
    using first_index_less [OF np_min_in [OF ds_ne]] by (simp add: k_def ds_def Pn_def)
  have ds_k: "ds ! k = np_min ds"
    unfolding k_def by (rule nth_first_index [OF np_min_in [OF ds_ne]])
  have Pn_k: "Pn ! k = nodes ! p"
    using k_less by (simp add: Pn_def p_def)
  have p_in: "p \<in> set Pi"
    using k_less by (simp add: p_def)
  define row where "row = map (norm3 (nodes ! p)) Qn"
  have row_ne: "row \<noteq> []"
    using Qn_ne by (simp add: row_def)
  have idx_k: "idx ! k = argmin row"
    using k_less Pn_k by (simp add: idx_def row_def Pn_def)
  have j_less: "idx ! k < length Qi"
    using argmin_less [OF row_ne] by (simp add: idx_k row_def Qn_def)
  have q_in: "q \<in> set Qi"
    using j_less by (simp add: q_def)
  have "row ! argmin row = np_min row"
    by (rule nth_argmin [OF row_ne])
  with j_less have pq: "norm3 (nodes ! p) (nodes ! q) = np_min row"
    by (simp add: row_def q_def idx_k Qn_def)
  have "ds ! k = np_min row"
    using k_less Pn_k by (simp add: ds_def row_def Pn_def)
  with pq ds_k have pq_min: "norm3 (nodes ! p) (nodes ! q) = np_min ds"
    by simp
  have least: "norm3 (nodes ! p) (nodes ! q) \<le> norm3 (nodes ! p') (nodes ! q')"
    if "p' \<in> set Pi" and "q' \<in> set Qi" for p' q'
  proof -
    from that(2) have "norm3 (nodes ! p') (nodes ! q') \<in> set (map (norm3 (nodes ! p')) Qn)"
      by (auto simp: Qn_def)
    then have "np_min (map (norm3 (nodes ! p')) Qn) \<le> norm3 (nodes ! p') (nodes ! q')"
      by (rule np_min_le)
    moreover from that(1) have "np_min (map (norm3 (nodes ! p')) Qn) \<in> set ds"
      by (auto simp: ds_def Pn_def)
    then have "np_min ds \<le> np_min (map (norm3 (nodes ! p')) Qn)"
      by (rule np_min_le)
    ultimately show ?thesis
      using pq_min by simp
  qed
  from br pq_min have "bridge nodes rs P Q =
      (if rs ! p + rs ! q \<ge> norm3 (nodes ! p) (nodes ! q) then Some (p, q) else None)"
    by simp
  with p_in q_in least show ?thesis
    unfolding Pi_def Qi_def by blast
qed

subsection \<open>One round of the pruning loop\<close>

lemma pruned_counts_values: "pruned_counts 1 = 0 \<and> pruned_counts 3 = - 1 \<and> pruned_counts 0 = 0"
  by (simp add: pruned_counts_def initial_branch_counts_def fork_edges_def unique_count_def)

lemma terminal_superedges_fork:
  "terminal_superedges_of [0, 2, 3] fork_dgraph = Inr fork_dgraph"
  by (simp add: fork_dgraph_def)

lemma min_entry_fork: "min_entry fork_dgraph = Some ([1, 3], 3)"
  by (simp add: fork_dgraph_def)

lemma ticks_step_fork:
  "\<exists>bc. ticks_step 4 [0, 2, 3] (fork_dgraph, initial_branch_counts fork_edges, fork_edges)
     = Inr (Some (pruned_dgraph, bc, stem_edges))"
  by (simp add: ticks_step_def fork_dgraph_def fork_edges_def stem_edges_def pruned_dgraph_def
      initial_branch_counts_def unique_count_def shortest_path_def remove_edges_from_def
      remove_edge_def dict_del_def fuse_edge_def np_unique_def dict_set_def Let_def
      cong: let_weak_cong bind_result_weak_cong)

lemma ticks_step_counts:
  assumes step: "ticks_step thr T (dg, bc, G) = Inr (Some (dg', bc', G'))"
    and keys: "keys_ok dg"
  shows "\<exists>ts e1 e2 w. terminal_superedges_of T dg = Inr ts \<and> min_entry ts = Some ([e1, e2], w)
     \<and> w < thr \<and> e1 \<noteq> e2
     \<and> bc' = (\<lambda>v. if v = e1 \<or> v = e2 then (if bc v - 1 = 2 then 0 else bc v - 1) else bc v)"
proof -
  from step obtain ts e1 e2 w p st2 st3 where
    ts: "terminal_superedges_of T dg = Inr ts" and m: "min_entry ts = Some ([e1, e2], w)"
    and w: "\<not> thr \<le> w"
    and st2: "(if (bc(e1 := bc e1 - 1, e2 := (bc(e1 := bc e1 - 1)) e2 - 1)) e1 = 2
          then fuse_edge e1 (dict_del dg [e1, e2], bc(e1 := bc e1 - 1, e2 := (bc(e1 := bc e1 - 1)) e2 - 1))
          else Inr (dict_del dg [e1, e2], bc(e1 := bc e1 - 1, e2 := (bc(e1 := bc e1 - 1)) e2 - 1))) = Inr st2"
    and st3: "(if snd st2 e2 = 2 then fuse_edge e2 st2 else Inr st2) = Inr st3"
    and res: "dg' = fst st3" "bc' = snd st3"
    by (rule ticks_step_SomeE)
  from min_entry_in [OF m] terminal_superedges_subset [OF ts] have "([e1, e2], w) \<in> set dg"
    by auto
  with keys have ne: "e1 \<noteq> e2"
    by (force simp: keys_ok_def)
  define bc2 where "bc2 = bc(e1 := bc e1 - 1, e2 := bc e2 - 1)"
  have bc2: "bc(e1 := bc e1 - 1, e2 := (bc(e1 := bc e1 - 1)) e2 - 1) = bc2"
    using ne by (simp add: bc2_def)
  note st2' = st2 [unfolded bc2]
  have k1: "keys_ok (dict_del dg [e1, e2])"
    unfolding dict_del_def using keys by (rule keys_ok_filter)
  have s2: "keys_ok (fst st2) \<and> snd st2 = (if bc2 e1 = 2 then bc2(e1 := 0) else bc2)"
  proof (cases "bc2 e1 = 2")
    case True
    with st2' have "fuse_edge e1 (dict_del dg [e1, e2], bc2) = Inr (fst st2, snd st2)"
      by simp
    from fuse_edge_ok [OF this k1] True show ?thesis by simp
  next
    case False
    with st2' k1 show ?thesis by auto
  qed
  have s3: "snd st3 = (if snd st2 e2 = 2 then (snd st2)(e2 := 0) else snd st2)"
  proof (cases "snd st2 e2 = 2")
    case True
    with st3 have "fuse_edge e2 (fst st2, snd st2) = Inr (fst st3, snd st3)"
      by simp
    from fuse_edge_ok [OF this] s2 True show ?thesis by simp
  next
    case False
    with st3 show ?thesis by auto
  qed
  have "bc' = (\<lambda>v. if v = e1 \<or> v = e2 then (if bc v - 1 = 2 then 0 else bc v - 1) else bc v)"
    unfolding res s3 using s2 ne by (auto simp: bc2_def fun_eq_iff)
  with ts m w ne show ?thesis
    by (intro exI [of _ ts] exI [of _ e1] exI [of _ e2] exI [of _ w]) simp
qed

lemma ticks_step_None_iff:
  assumes ts: "terminal_superedges_of T dg = Inr ts" and m: "min_entry ts = Some ([e1, e2], w)"
    and counts: "counts_ok bc"
  shows "\<not> (bc e1 = 1 \<and> bc e2 = 1) \<and> (ticks_step thr T (dg, bc, G) = Inr None \<longleftrightarrow> thr \<le> w)"
proof -
  from counts have "bc e1 \<le> 0 \<or> 3 \<le> bc e1"
    by (simp add: counts_ok_def)
  then have n1: "\<not> (bc e1 = 1 \<and> bc e2 = 1)"
    by auto
  let ?bc2 = "bc(e1 := bc e1 - 1, e2 := (bc(e1 := bc e1 - 1)) e2 - 1)"
  let ?rest = "bind_result (shortest_path G e1 e2)
           (\<lambda>p. bind_result
              (if ?bc2 e1 = 2 then fuse_edge e1 (dict_del dg [e1, e2], ?bc2)
               else Inr (dict_del dg [e1, e2], ?bc2))
              (\<lambda>st2. bind_result (if snd st2 e2 = 2 then fuse_edge e2 st2 else Inr st2)
                 (\<lambda>st3. Inr (Some (fst st3, snd st3, remove_edges_from G (path2edge p))))))"
  have eq: "ticks_step thr T (dg, bc, G) = (if bc e1 = 1 \<and> bc e2 = 1 then Inr None
       else if thr \<le> w then Inr None else ?rest)"
    unfolding ticks_step_def Let_def
    by (simp only: ts m fst_conv snd_conv bind_result.simps option.case prod.case list.case)
  have "?rest \<noteq> Inr None"
  proof
    assume r: "?rest = Inr None"
    then obtain p where "bind_result
              (if ?bc2 e1 = 2 then fuse_edge e1 (dict_del dg [e1, e2], ?bc2)
               else Inr (dict_del dg [e1, e2], ?bc2))
              (\<lambda>st2. bind_result (if snd st2 e2 = 2 then fuse_edge e2 st2 else Inr st2)
                 (\<lambda>st3. Inr (Some (fst st3, snd st3, remove_edges_from G (path2edge p)))))
            = Inr None"
      by (rule bind_result_InrE)
    then obtain st2 where "bind_result (if snd st2 e2 = 2 then fuse_edge e2 st2 else Inr st2)
                 (\<lambda>st3. Inr (Some (fst st3, snd st3, remove_edges_from G (path2edge p))))
            = Inr None"
      by (rule bind_result_InrE)
    then obtain st3 where "Inr (Some (fst st3, snd st3, remove_edges_from G (path2edge p)))
         = (Inr None :: error + (dgraph \<times> (nat \<Rightarrow> int) \<times> (nat \<times> nat) list) option)"
      by (rule bind_result_InrE)
    then show False by simp
  qed
  with n1 eq show ?thesis
    by simp
qed

subsection \<open>Reachability and component labels\<close>

lemma in_adj: "(a, b) \<in> adj es \<longleftrightarrow> (a, b) \<in> set es \<or> (b, a) \<in> set es"
  by (simp add: adj_def)

lemma adj_sym: "(a, b) \<in> adj es \<Longrightarrow> (b, a) \<in> adj es"
  by (auto simp: in_adj)

lemma conn_sym: "(a, b) \<in> (adj es)\<^sup>* \<Longrightarrow> (b, a) \<in> (adj es)\<^sup>*"
proof (induction rule: rtrancl_induct)
  case base
  show ?case by simp
next
  case (step y z)
  from step.hyps(2) have "(z, y) \<in> adj es" by (rule adj_sym)
  from this step.IH show ?case by (rule converse_rtrancl_into_rtrancl)
qed

lemma in_neighbours: "u \<in> set (neighbours es v) \<longleftrightarrow> (v, u) \<in> set es \<or> (u, v) \<in> set es"
  by (induction es v rule: neighbours.induct) auto

lemma set_neighbours: "set (neighbours es v) = {u. (v, u) \<in> adj es}"
  by (rule set_eqI) (simp add: in_neighbours in_adj)

lemma set_grow: "set (grow es S) = set S \<union> adj es `` set S"
  by (rule set_eqI) (simp add: grow_def set_neighbours Image_iff)

lemma distinct_grow: "distinct (grow es S)"
  by (simp add: grow_def)

lemma in_flatten: "v \<in> set (flatten es) \<longleftrightarrow> (\<exists>u. (v, u) \<in> set es \<or> (u, v) \<in> set es)"
  by (induction es rule: flatten.induct) auto

lemma adj_in_flatten: "(a, b) \<in> adj es \<Longrightarrow> b \<in> set (flatten es)"
  by (auto simp: in_flatten in_adj)

text \<open>A round that adds nothing has reached a closed set.\<close>

lemma grow_stops:
  assumes "length (grow es S) = length (remdups S)"
  shows "adj es `` set S \<subseteq> set S"
proof -
  have "card (set (grow es S)) = card (set S)"
    using assms distinct_card [OF distinct_grow, of es S] distinct_card [OF distinct_remdups, of S]
    by simp
  moreover have "set S \<subseteq> set (grow es S)"
    by (simp add: set_grow)
  ultimately have "set (grow es S) = set S"
    using card_subset_eq [of "set (grow es S)" "set S"] by simp
  then show ?thesis
    by (auto simp: set_grow)
qed

lemma grow_grows:
  assumes "length (grow es S) \<noteq> length (remdups S)"
  shows "card (set S) < card (set (grow es S))"
proof -
  have "set S \<subseteq> set (grow es S)"
    by (simp add: set_grow)
  then have le: "card (set S) \<le> card (set (grow es S))"
    by (simp add: card_mono)
  have "card (set (grow es S)) = length (grow es S)"
    by (rule distinct_card [OF distinct_grow])
  moreover have "card (set S) = length (remdups S)"
    by (simp add: length_remdups_card_conv)
  ultimately show ?thesis
    using assms le by simp
qed

lemma reach_from_closed:
  assumes "set S \<subseteq> N" and "adj es `` N \<subseteq> N" and "finite N" and "card N < card (set S) + k"
  shows "adj es `` set (reach_from k es S) \<subseteq> set (reach_from k es S)"
  using assms
proof (induction k arbitrary: S)
  case 0
  from "0.prems"(1,3) have "card (set S) \<le> card N"
    by (simp add: card_mono)
  with "0.prems"(4) show ?case by simp
next
  case (Suc k)
  show ?case
  proof (cases "length (grow es S) = length (remdups S)")
    case True
    then show ?thesis by (simp add: grow_stops)
  next
    case False
    have "set (grow es S) \<subseteq> N"
      using Suc.prems(1,2) by (auto simp: set_grow)
    moreover have "card N < card (set (grow es S)) + k"
      using grow_grows [OF False] Suc.prems(4) by simp
    ultimately have "adj es `` set (reach_from k es (grow es S)) \<subseteq> set (reach_from k es (grow es S))"
      using Suc.prems(2,3) by (intro Suc.IH)
    with False show ?thesis by simp
  qed
qed

lemma reach_from_mono: "set S \<subseteq> set (reach_from k es S)"
proof (induction k arbitrary: S)
  case 0
  show ?case by simp
next
  case (Suc k)
  have "set S \<subseteq> set (grow es S)" by (simp add: set_grow)
  with Suc [of "grow es S"] show ?case by auto
qed

lemma reach_from_sound:
  assumes "set S \<subseteq> (adj es)\<^sup>* `` {v}"
  shows "set (reach_from k es S) \<subseteq> (adj es)\<^sup>* `` {v}"
  using assms
proof (induction k arbitrary: S)
  case 0
  then show ?case by simp
next
  case (Suc k)
  have "set (grow es S) \<subseteq> (adj es)\<^sup>* `` {v}"
    using Suc.prems by (auto simp: set_grow intro: rtrancl_into_rtrancl)
  with Suc.IH [of "grow es S"] Suc.prems show ?case by simp
qed

lemma closed_rtrancl:
  assumes "adj es `` X \<subseteq> X" and "v \<in> X" and "(v, u) \<in> (adj es)\<^sup>*"
  shows "u \<in> X"
  using assms(3,1,2) by (induction rule: rtrancl_induct) auto

lemma set_reach: "set (reach es v) = (adj es)\<^sup>* `` {v}"
proof
  show "set (reach es v) \<subseteq> (adj es)\<^sup>* `` {v}"
    unfolding reach_def by (rule reach_from_sound) simp
next
  let ?N = "insert v (set (flatten es))"
  have "card ?N \<le> Suc (card (set (flatten es)))"
    by (simp add: card_insert_if)
  also have "\<dots> \<le> Suc (length (flatten es))"
    by (simp add: card_length)
  finally have "card ?N < card (set [v]) + Suc (length (flatten es))"
    by simp
  moreover have "adj es `` ?N \<subseteq> ?N"
    by (auto dest: adj_in_flatten)
  ultimately have closed: "adj es `` set (reach es v) \<subseteq> set (reach es v)"
    unfolding reach_def by (intro reach_from_closed [where N = ?N]) auto
  have "set [v] \<subseteq> set (reach es v)"
    unfolding reach_def by (rule reach_from_mono)
  then have "v \<in> set (reach es v)"
    by simp
  with closed show "(adj es)\<^sup>* `` {v} \<subseteq> set (reach es v)"
    by (auto intro: closed_rtrancl)
qed

lemma label_Min: "label es v = Min ((adj es)\<^sup>* `` {v})"
proof -
  have v: "v \<in> set (reach es v)"
    by (simp add: set_reach)
  have "label es v = Min (set (v # reach es v))"
    unfolding label_def by (simp only: Min.set_eq_fold)
  also have "set (v # reach es v) = set (reach es v)"
    using v by auto
  finally show ?thesis
    by (simp add: set_reach)
qed

lemma finite_comp: "finite ((adj es)\<^sup>* `` {v})"
  unfolding set_reach [symmetric] by simp

lemma label_in_comp: "(v, label es v) \<in> (adj es)\<^sup>*"
proof -
  have "Min ((adj es)\<^sup>* `` {v}) \<in> (adj es)\<^sup>* `` {v}"
    by (rule Min_in [OF finite_comp]) auto
  then show ?thesis
    by (simp add: label_Min)
qed

lemma label_le: "label es v \<le> v"
  unfolding label_Min by (rule Min_le [OF finite_comp]) simp

lemma comp_eq: "(u, v) \<in> (adj es)\<^sup>* \<Longrightarrow> (adj es)\<^sup>* `` {u} = (adj es)\<^sup>* `` {v}"
  by (auto dest: conn_sym intro: rtrancl_trans)

lemma label_conn: "(u, v) \<in> (adj es)\<^sup>* \<Longrightarrow> label es u = label es v"
  by (simp add: label_Min comp_eq)

lemma label_eq_iff: "label es u = label es v \<longleftrightarrow> (u, v) \<in> (adj es)\<^sup>*"
proof
  assume eq: "label es u = label es v"
  have "(u, label es u) \<in> (adj es)\<^sup>*"
    by (rule label_in_comp)
  moreover have "(label es v, v) \<in> (adj es)\<^sup>*"
    by (rule conn_sym [OF label_in_comp])
  ultimately show "(u, v) \<in> (adj es)\<^sup>*"
    using eq by (auto intro: rtrancl_trans)
qed (rule label_conn)

lemma label_idem: "label es (label es v) = label es v"
  by (rule label_conn [OF conn_sym [OF label_in_comp]])

text \<open>A vertex outside the edge array is alone in its component.\<close>

lemma conn_isolated:
  assumes "v \<notin> set (flatten es)" and "(u, v) \<in> (adj es)\<^sup>*"
  shows "u = v"
  using assms(2,1)
proof (induction rule: rtrancl_induct)
  case base
  show ?case by simp
next
  case (step y z)
  from step.hyps(2) have "z \<in> set (flatten es)"
    by (rule adj_in_flatten)
  with step.prems show ?case by simp
qed

lemma label_isolated: "v \<notin> set (flatten es) \<Longrightarrow> label es v = v"
  using conn_isolated [OF _ conn_sym [OF label_in_comp], of v es] by simp

lemma conn_in_flatten:
  assumes "(u, v) \<in> (adj es)\<^sup>*" and "u \<in> set (flatten es)"
  shows "v \<in> set (flatten es)"
  using assms by (induction rule: rtrancl_induct) (auto dest: adj_in_flatten)

lemma label_in_flatten: "u \<in> set (flatten es) \<Longrightarrow> label es u \<in> set (flatten es)"
  by (rule conn_in_flatten [OF label_in_comp])

subsection \<open>The component masks\<close>

lemma set_np_unique: "set (np_unique xs) = set xs"
  by (simp add: np_unique_def)

lemma distinct_np_unique: "distinct (np_unique xs)"
  by (simp add: np_unique_def)

lemma sorted_np_unique: "sorted (np_unique xs)"
  by (simp add: np_unique_def)

lemma set_labels: "set (labels es) = label es ` set (flatten es)"
  by (simp add: labels_def set_np_unique)

lemma length_labels: "length (labels es) = card (label es ` set (flatten es))"
  unfolding set_labels [symmetric] labels_def
  by (simp add: distinct_card [OF distinct_np_unique])

lemma find_connected_eq:
  assumes "set (flatten es) \<subseteq> {..<length nodes}"
  shows "find_connected nodes es
    = map (\<lambda>i. map (\<lambda>v. label es v = i) [0..<length nodes]) (labels es)"
proof -
  have "map (\<lambda>v. map (label es) [0..<length nodes] ! v) (np_unique (flatten es))
      = map (label es) (np_unique (flatten es))"
    using assms by (intro map_cong refl) (auto simp: set_np_unique)
  then have h: "map ((!) (map (label es) [0..<length nodes])) (np_unique (flatten es))
      = map (label es) (np_unique (flatten es))" .
  show ?thesis
    unfolding find_connected_def Let_def labels_def h by (simp add: comp_def)
qed

lemma length_find_connected:
  "set (flatten es) \<subseteq> {..<length nodes} \<Longrightarrow> length (find_connected nodes es) = length (labels es)"
  by (simp add: find_connected_eq)

lemma np_where_find_connected:
  assumes "set (flatten es) \<subseteq> {..<length nodes}" and "i < length (labels es)"
  shows "set (np_where (find_connected nodes es ! i))
    = {v. v < length nodes \<and> label es v = labels es ! i}"
  using assms by (auto simp: find_connected_eq np_where_def)

lemma mask_nth:
  assumes "set (flatten es) \<subseteq> {..<length nodes}" and "m \<in> set (find_connected nodes es)"
    and "v < length nodes" and "m ! v"
  shows "\<exists>u \<in> set (flatten es). label es v = label es u"
proof -
  from assms(1,2) obtain i where i: "i \<in> set (labels es)"
    and m: "m = map (\<lambda>v. label es v = i) [0..<length nodes]"
    by (auto simp: find_connected_eq)
  from i obtain u where "u \<in> set (flatten es)" "i = label es u"
    by (auto simp: set_labels)
  with m assms(3,4) show ?thesis
    by auto
qed

lemma isolated_in_no_mask:
  assumes "set (flatten es) \<subseteq> {..<length nodes}" and "m \<in> set (find_connected nodes es)"
    and "v < length nodes" and "v \<notin> set (flatten es)"
  shows "\<not> m ! v"
proof
  assume "m ! v"
  with assms(1-3) obtain u where u: "u \<in> set (flatten es)" and "label es v = label es u"
    by (blast dest: mask_nth)
  then have "(u, v) \<in> (adj es)\<^sup>*"
    by (simp add: label_eq_iff [symmetric])
  from conn_isolated [OF assms(4) this] u assms(4) show False
    by simp
qed

text \<open>Every mask holds a vertex of the edge array.\<close>

lemma np_where_mask_nonempty:
  assumes "set (flatten es) \<subseteq> {..<length nodes}" and "i < length (labels es)"
  shows "np_where (find_connected nodes es ! i) \<noteq> []"
proof -
  from assms(2) have "labels es ! i \<in> set (labels es)"
    by simp
  then obtain u where u: "u \<in> set (flatten es)" and "labels es ! i = label es u"
    by (auto simp: set_labels)
  with assms(1) have "u \<in> set (np_where (find_connected nodes es ! i))"
    by (auto simp: np_where_find_connected [OF assms])
  then show ?thesis
    by auto
qed

lemma mask_member_in_flatten:
  assumes "set (flatten es) \<subseteq> {..<length nodes}" and "i < length (labels es)"
    and "a \<in> set (np_where (find_connected nodes es ! i))"
  shows "a \<in> set (flatten es) \<and> a < length nodes \<and> label es a = labels es ! i"
proof -
  from assms(3) have a: "a < length nodes" "label es a = labels es ! i"
    by (simp_all add: np_where_find_connected [OF assms(1,2)])
  from assms(2) have "labels es ! i \<in> set (labels es)"
    by simp
  then obtain u where u: "u \<in> set (flatten es)" and "labels es ! i = label es u"
    by (auto simp: set_labels)
  with a have "(u, a) \<in> (adj es)\<^sup>*"
    by (simp add: label_eq_iff [symmetric])
  from conn_in_flatten [OF this u] a show ?thesis
    by simp
qed

subsection \<open>Joining two components\<close>

lemma adj_append: "adj (es @ [(a, b)]) = insert (a, b) (insert (b, a) (adj es))"
  by (rule set_eqI) (auto simp: adj_def)

lemma flatten_append: "flatten (es @ fs) = flatten es @ flatten fs"
  by (induction es rule: flatten.induct) auto

lemma conn_mono: "(u, w) \<in> (adj es)\<^sup>* \<Longrightarrow> (u, w) \<in> (adj (es @ [e]))\<^sup>*"
proof -
  have "adj es \<subseteq> adj (es @ [e])"
    by (cases e) (auto simp: adj_append)
  then show "(u, w) \<in> (adj es)\<^sup>* \<Longrightarrow> (u, w) \<in> (adj (es @ [e]))\<^sup>*"
    by (rule rtrancl_mono [THEN subsetD])
qed

text \<open>
  After the edge \<open>(a, b)\<close> is added, two connected vertices were connected before or
  both lie in the components of \<open>a\<close> and \<open>b\<close>.
\<close>

lemma conn_append:
  assumes "(u, w) \<in> (adj (es @ [(a, b)]))\<^sup>*"
  shows "(u, w) \<in> (adj es)\<^sup>*
    \<or> (label es u \<in> {label es a, label es b} \<and> label es w \<in> {label es a, label es b})"
  using assms
proof (induction rule: rtrancl_induct)
  case base
  show ?case by simp
next
  case (step y z)
  from step.hyps(2) consider "(y, z) \<in> adj es" | "y = a" "z = b" | "y = b" "z = a"
    by (auto simp: adj_append)
  then show ?case
  proof cases
    case 1
    then have yz: "(y, z) \<in> (adj es)\<^sup>*" by simp
    then have "label es y = label es z" by (rule label_conn)
    with step.IH yz show ?thesis
      by (auto intro: rtrancl_trans)
  next
    case 2
    with step.IH show ?thesis
      by (auto dest: label_conn)
  next
    case 3
    with step.IH show ?thesis
      by (auto dest: label_conn)
  qed
qed

lemma label_append:
  assumes ne: "label es a \<noteq> label es b"
  shows "label (es @ [(a, b)]) u =
     (if label es u \<in> {label es a, label es b} then min (label es a) (label es b) else label es u)"
proof (cases "label es u \<in> {label es a, label es b}")
  case False
  have "(adj (es @ [(a, b)]))\<^sup>* `` {u} = (adj es)\<^sup>* `` {u}"
  proof (rule set_eqI)
    fix w
    show "w \<in> (adj (es @ [(a, b)]))\<^sup>* `` {u} \<longleftrightarrow> w \<in> (adj es)\<^sup>* `` {u}"
      using conn_append [of u w es a b] conn_mono [of u w es "(a, b)"] False by auto
  qed
  with False show ?thesis
    by (simp add: label_Min)
next
  case True
  let ?es = "es @ [(a, b)]"
  let ?m = "min (label es a) (label es b)"
  have ab: "(a, b) \<in> (adj ?es)\<^sup>*"
    by (auto simp: adj_append)
  have ua: "(u, a) \<in> (adj ?es)\<^sup>*"
  proof -
    from True have "(u, a) \<in> (adj es)\<^sup>* \<or> (u, b) \<in> (adj es)\<^sup>*"
      by (auto simp: label_eq_iff)
    then show ?thesis
    proof
      assume "(u, a) \<in> (adj es)\<^sup>*"
      then show ?thesis by (rule conn_mono)
    next
      assume "(u, b) \<in> (adj es)\<^sup>*"
      then have "(u, b) \<in> (adj ?es)\<^sup>*" by (rule conn_mono)
      from this conn_sym [OF ab] show ?thesis by (rule rtrancl_trans)
    qed
  qed
  have "(a, ?m) \<in> (adj ?es)\<^sup>*"
  proof (cases "label es a \<le> label es b")
    case True
    then show ?thesis
      using conn_mono [OF label_in_comp, of a es "(a, b)"] by (simp add: min_def)
  next
    case False
    have "(b, label es b) \<in> (adj ?es)\<^sup>*"
      by (rule conn_mono [OF label_in_comp])
    with ab have "(a, label es b) \<in> (adj ?es)\<^sup>*" by (rule rtrancl_trans)
    with False show ?thesis by (simp add: min_def)
  qed
  with ua have m_in: "?m \<in> (adj ?es)\<^sup>* `` {u}"
    by (auto intro: rtrancl_trans)
  have least: "?m \<le> w" if "w \<in> (adj ?es)\<^sup>* `` {u}" for w
  proof -
    from that have "(u, w) \<in> (adj ?es)\<^sup>*" by simp
    from conn_append [OF this] True have "label es w \<in> {label es a, label es b}"
      by (auto dest: label_conn)
    then have "?m \<le> label es w" by auto
    also have "\<dots> \<le> w" by (rule label_le)
    finally show ?thesis .
  qed
  have "Min ((adj ?es)\<^sup>* `` {u}) = ?m"
    by (rule Min_eqI [OF finite_comp least m_in])
  with True show ?thesis
    by (simp add: label_Min)
qed

lemma fewer_components:
  assumes ne: "label es a \<noteq> label es b"
    and a: "a \<in> set (flatten es)" and b: "b \<in> set (flatten es)"
  shows "card (label (es @ [(a, b)]) ` set (flatten (es @ [(a, b)])))
    < card (label es ` set (flatten es))"
proof -
  let ?L = "label es ` set (flatten es)"
  let ?M = "max (label es a) (label es b)"
  have fl: "set (flatten (es @ [(a, b)])) = set (flatten es)"
    using a b by (auto simp: flatten_append)
  have "label (es @ [(a, b)]) u \<in> ?L - {?M}" if "u \<in> set (flatten es)" for u
    using that a b ne by (auto simp: label_append [OF ne] min_def max_def)
  then have "label (es @ [(a, b)]) ` set (flatten es) \<subseteq> ?L - {?M}"
    by auto
  moreover have "?M \<in> ?L"
    using a b by (auto simp: max_def)
  then have "card (?L - {?M}) < card ?L"
    by (intro card_Diff1_less) auto
  ultimately show ?thesis
    unfolding fl
    by (meson List.finite_set card_mono finite_Diff finite_imageI le_less_trans)
qed

subsection \<open>The connection loop\<close>

lemma combination_pairs_less:
  assumes "(i, j) \<in> set (combination_pairs n)"
  shows "i < n \<and> j < n"
proof -
  from assms obtain i0 j0 where "i0 < n" "j0 < n - i0 - 1"
    and ij: "i = i0 mod 65536" "j = (i0 + j0 + 1) mod 65536"
    by (auto simp: combination_pairs_def)
  then have "i0 + j0 + 1 < n"
    by linarith
  moreover have "i \<le> i0" "j \<le> i0 + j0 + 1"
    unfolding ij by (rule mod_less_eq_dividend)+
  ultimately show ?thesis by linarith
qed

lemma combination_pairs_range:
  assumes "n \<le> 65536" and "(i, j) \<in> set (combination_pairs n)"
  shows "i < j \<and> j < n"
proof -
  from assms(2) obtain i0 j0 where "i0 < n" "j0 < n - i0 - 1"
    and ij: "i = i0 mod 65536" "j = (i0 + j0 + 1) mod 65536"
    by (auto simp: combination_pairs_def)
  with assms(1) have "i0 < 65536" "i0 + j0 + 1 < 65536" "i0 + j0 + 1 < n"
    by linarith+
  with ij show ?thesis by simp
qed

lemma sweep_Some:
  "sweep nodes rs conn pairs = Some e
    \<Longrightarrow> \<exists>(i, j) \<in> set pairs. bridge nodes rs (conn ! i) (conn ! j) = Some e"
  by (induction nodes rs conn pairs rule: sweep.induct) (auto split: option.splits)

lemma bridge_Some:
  assumes "bridge nodes rs P Q = Some (a, b)" and "np_where P \<noteq> []" and "np_where Q \<noteq> []"
  shows "a \<in> set (np_where P) \<and> b \<in> set (np_where Q)"
  using bridge_closest_pair [OF assms(2,3), of nodes rs] assms(1)
  by (auto split: if_splits)

lemma length_labels_le:
  assumes "set (flatten es) \<subseteq> {..<n}"
  shows "length (labels es) \<le> n"
proof -
  have "set (labels es) \<subseteq> {..<n}"
    using assms label_in_flatten by (auto simp: set_labels)
  then have "card (set (labels es)) \<le> card {..<n}"
    by (intro card_mono) auto
  then show ?thesis
    by (simp add: labels_def distinct_card [OF distinct_np_unique])
qed

lemma distinct_labels: "distinct (labels es)"
  by (simp add: labels_def distinct_np_unique)

text \<open>An admitted bridge joins two vertices of the edge array.\<close>

lemma new_edge_in_flatten:
  assumes range: "set (flatten es) \<subseteq> {..<length nodes}"
    and sw: "sweep nodes rs (find_connected nodes es)
       (combination_pairs (length (find_connected nodes es))) = Some (a, b)"
  shows "\<exists>i j. i < length (labels es) \<and> j < length (labels es)
     \<and> (i, j) \<in> set (combination_pairs (length (labels es)))
     \<and> a \<in> set (flatten es) \<and> b \<in> set (flatten es)
     \<and> label es a = labels es ! i \<and> label es b = labels es ! j"
proof -
  let ?conn = "find_connected nodes es"
  have len: "length ?conn = length (labels es)"
    by (rule length_find_connected [OF range])
  from sweep_Some [OF sw] obtain i j where ij: "(i, j) \<in> set (combination_pairs (length ?conn))"
    and br: "bridge nodes rs (?conn ! i) (?conn ! j) = Some (a, b)"
    by auto
  from combination_pairs_less [OF ij] len have i: "i < length (labels es)"
    and j: "j < length (labels es)"
    by simp_all
  from bridge_Some [OF br np_where_mask_nonempty [OF range i] np_where_mask_nonempty [OF range j]]
  have "a \<in> set (np_where (?conn ! i))" "b \<in> set (np_where (?conn ! j))"
    by simp_all
  from mask_member_in_flatten [OF range i this(1)] mask_member_in_flatten [OF range j this(2)]
  have "a \<in> set (flatten es)" "b \<in> set (flatten es)"
    "label es a = labels es ! i" "label es b = labels es ! j"
    by simp_all
  with i j ij len show ?thesis
    by auto
qed

text \<open>With at most 65536 components it joins two that were not connected.\<close>

lemma new_edge:
  assumes range: "set (flatten es) \<subseteq> {..<length nodes}" and small: "length nodes \<le> 65536"
    and sw: "sweep nodes rs (find_connected nodes es)
       (combination_pairs (length (find_connected nodes es))) = Some (a, b)"
  shows "a \<in> set (flatten es) \<and> b \<in> set (flatten es) \<and> label es a \<noteq> label es b"
proof -
  from new_edge_in_flatten [OF range sw] obtain i j where
    i: "i < length (labels es)" and j: "j < length (labels es)"
    and ij: "(i, j) \<in> set (combination_pairs (length (labels es)))"
    and ab: "a \<in> set (flatten es)" "b \<in> set (flatten es)"
      "label es a = labels es ! i" "label es b = labels es ! j"
    by blast
  have "length (labels es) \<le> 65536"
    using length_labels_le [OF range] small by simp
  from combination_pairs_range [OF this ij] have "i \<noteq> j"
    by simp
  with i j have "labels es ! i \<noteq> labels es ! j"
    by (simp add: nth_eq_iff_index_eq [OF distinct_labels])
  with ab show ?thesis by simp
qed

lemma connect_loop_flatten:
  assumes "set (flatten es) \<subseteq> {..<length nodes}"
    and "connect_loop fuel nodes rs es = Inr es'"
  shows "set (flatten es') = set (flatten es) \<and> take (length es) es' = es"
  using assms
proof (induction fuel arbitrary: es)
  case 0
  then show ?case by simp
next
  case (Suc fuel)
  let ?sw = "sweep nodes rs (find_connected nodes es)
       (combination_pairs (length (find_connected nodes es)))"
  show ?case
  proof (cases ?sw)
    case None
    with Suc.prems(2) show ?thesis by (simp add: Let_def)
  next
    case (Some e)
    obtain a b where e: "e = (a, b)" by (cases e)
    from new_edge_in_flatten [OF Suc.prems(1) Some [unfolded e]]
    have fl: "set (flatten (es @ [(a, b)])) = set (flatten es)"
      by (auto simp: flatten_append)
    from Suc.prems(2) Some e have "connect_loop fuel nodes rs (es @ [(a, b)]) = Inr es'"
      by (simp add: Let_def)
    from Suc.IH [OF _ this] fl Suc.prems(1)
    have "set (flatten es') = set (flatten es)"
      and t: "take (length (es @ [(a, b)])) es' = es @ [(a, b)]"
      by simp_all
    moreover from t have "take (length es) es' = es"
      by (metis append_eq_conv_conj take_take min.idem length_append le_add1 min_def)
    ultimately show ?thesis by simp
  qed
qed

lemma connect_loop_returns:
  assumes "set (flatten es) \<subseteq> {..<length nodes}" and "length nodes \<le> 65536"
    and "card (label es ` set (flatten es)) < fuel"
  shows "\<exists>es'. connect_loop fuel nodes rs es = Inr es'"
  using assms
proof (induction fuel arbitrary: es)
  case 0
  then show ?case by simp
next
  case (Suc fuel)
  let ?sw = "sweep nodes rs (find_connected nodes es)
       (combination_pairs (length (find_connected nodes es)))"
  show ?case
  proof (cases ?sw)
    case None
    then show ?thesis by (simp add: Let_def)
  next
    case (Some e)
    obtain a b where e: "e = (a, b)" by (cases e)
    from new_edge [OF Suc.prems(1,2) Some [unfolded e]]
    have ab: "a \<in> set (flatten es)" "b \<in> set (flatten es)" "label es a \<noteq> label es b"
      by simp_all
    then have fl: "set (flatten (es @ [(a, b)])) = set (flatten es)"
      by (auto simp: flatten_append)
    from fewer_components [OF ab(3) ab(1,2)] Suc.prems(3)
    have "card (label (es @ [(a, b)]) ` set (flatten (es @ [(a, b)]))) < fuel"
      by simp
    from Suc.IH [OF _ Suc.prems(2) this] fl Suc.prems(1)
    obtain es' where "connect_loop fuel nodes rs (es @ [(a, b)]) = Inr es'"
      by auto
    with Some e show ?thesis
      by (simp add: Let_def)
  qed
qed

lemma in_flatten_iff: "v \<in> set (flatten es) \<longleftrightarrow> (\<exists>e \<in> set es. v = fst e \<or> v = snd e)"
  by (induction es rule: flatten.induct) auto

lemma index_of_nth: "distinct xs \<Longrightarrow> i < length xs \<Longrightarrow> index_of xs (xs ! i) = i"
proof (induction xs arbitrary: i)
  case Nil
  then show ?case by simp
next
  case (Cons x xs)
  then show ?case by (cases i) auto
qed

lemma consolidate_no_isolated:
  assumes "i < length (vertices (consolidate s))"
  shows "i \<in> set (flatten (edges (consolidate s)))"
proof -
  let ?keep = "np_unique (flatten (edges s))"
  from assms have i: "i < length ?keep"
    by (simp add: consolidate_def restrict_def)
  then have "?keep ! i \<in> set (flatten (edges s))"
    using nth_mem [OF i] by (simp add: set_np_unique)
  then obtain e where e: "e \<in> set (edges s)" and "?keep ! i = fst e \<or> ?keep ! i = snd e"
    by (auto simp: in_flatten_iff)
  then have "i = fst (reindex ?keep e) \<or> i = snd (reindex ?keep e)"
    using index_of_nth [OF distinct_np_unique i] by (auto simp: reindex_def)
  moreover from e have "reindex ?keep e \<in> set (edges (consolidate s))"
    by (simp add: consolidate_def restrict_def)
  ultimately show ?thesis
    unfolding in_flatten_iff by blast
qed

lemma np_unique_cong: "set xs = set ys \<Longrightarrow> np_unique xs = np_unique ys"
  unfolding np_unique_def by (rule sorted_distinct_set_unique) simp_all

subsection \<open>The crumb\<close>

lemma find_connected_crumb: "find_connected crumb_vertices gap_edges = crumb_masks"
  by (simp add: crumb_vertices_def gap_edges_def crumb_masks_def find_connected_def label_def
      reach_def grow_def np_unique_def upt_conv_Cons)

lemma bridge_crumb:
  "bridge crumb_vertices crumb_radii (crumb_masks ! 0) (crumb_masks ! Suc 0) = Some (2, 3)"
  by (simp add: crumb_vertices_def crumb_masks_def crumb_radii_def bridge_def np_where_def
      upt_conv_Cons norm3_x np_min_def argmin_def Let_def cong: let_weak_cong)

lemma length_crumb_masks: "length crumb_masks = Suc (Suc 0)"
  by (simp add: crumb_masks_def)

lemma find_connected_crumb_bridged:
  "find_connected crumb_vertices (gap_edges @ [(2, 3)])
     = [[True, True, True, True, True, True, False]]"
  by (simp add: crumb_vertices_def gap_edges_def find_connected_def label_def
      reach_def grow_def np_unique_def upt_conv_Cons)

lemma connect_loop_crumb:
  "connect_loop 4 crumb_vertices crumb_radii gap_edges = Inr bridged_edges"
  by (simp add: four find_connected_crumb length_crumb_masks combination_pairs_2 bridge_crumb
      find_connected_crumb_bridged combination_pairs_def)
    (simp add: gap_edges_def bridged_edges_def)

lemma crumb_not_empty: "\<not> empty crumb"
  by (simp add: crumb_def crumb_vertices_def gap_edges_def empty_def)

lemma consolidate_crumb_bridged:
  "consolidate \<lparr>vertices = crumb_vertices, edges = bridged_edges, radii = crumb_radii\<rparr> = bridged"
  by (simp add: bridged_def gap_vertices_def crumb_vertices_def bridged_edges_def thick_radii_def
      crumb_radii_def consolidate_def np_unique_def restrict_def reindex_def)

lemma connect_pieces_crumb: "connect_pieces 4 crumb = Inr bridged"
  using consolidate_crumb_bridged
  by (simp add: connect_pieces_def crumb_not_empty) (simp add: crumb_def connect_loop_crumb)

lemma flatten_gap_edges: "set (flatten gap_edges) = {0, 1, 2, 3, 4, 5}"
  by (auto simp: gap_edges_def)

subsection \<open>Edge arrays side by side\<close>

lemma in_adj_append: "adj (es1 @ es2) = adj es1 \<union> adj es2"
  by (auto simp: adj_def)

lemma in_set_shift: "(x, y) \<in> set (map (shift k) es) \<longleftrightarrow> (\<exists>a b. (a, b) \<in> set es \<and> x = a + k \<and> y = b + k)"
  by (induction es) (auto simp: shift_def)

lemma adj_shift:
  "(x, y) \<in> adj (map (shift k) es) \<longleftrightarrow> (\<exists>a b. (a, b) \<in> adj es \<and> x = a + k \<and> y = b + k)"
  unfolding in_adj in_set_shift by blast

lemma adj_lower:
  assumes "set (flatten es1) \<subseteq> {..<k}" and "(a, b) \<in> adj es1"
  shows "a < k \<and> b < k"
  using assms adj_in_flatten [of a b es1] adj_in_flatten [OF adj_sym, of a b es1] by auto

text \<open>Two edge arrays side by side: no path leads from one to the other.\<close>

lemma conn_lower:
  assumes r: "set (flatten es1) \<subseteq> {..<k}" and v: "v < k"
    and p: "(v, u) \<in> (adj (es1 @ map (shift k) es2))\<^sup>*"
  shows "u < k \<and> (v, u) \<in> (adj es1)\<^sup>*"
  using p
proof (induction rule: rtrancl_induct)
  case base
  from v show ?case by simp
next
  case (step y z)
  from step.hyps(2) have "(y, z) \<in> adj es1 \<or> (\<exists>a b. y = a + k \<and> z = b + k)"
    unfolding in_adj_append Un_iff adj_shift by blast
  with step.IH have yz: "(y, z) \<in> adj es1"
    by auto
  with adj_lower [OF r yz] step.IH show ?case
    by (auto intro: rtrancl_into_rtrancl)
qed

lemma conn_upper:
  assumes r: "set (flatten es1) \<subseteq> {..<k}"
    and p: "(k + v, u) \<in> (adj (es1 @ map (shift k) es2))\<^sup>*"
  shows "\<exists>w. u = k + w \<and> (v, w) \<in> (adj es2)\<^sup>*"
  using p
proof (induction rule: rtrancl_induct)
  case base
  show ?case by auto
next
  case (step y z)
  from step.IH obtain w where w: "y = k + w" "(v, w) \<in> (adj es2)\<^sup>*"
    by auto
  from step.hyps(2) have "(y, z) \<in> adj es1 \<or> (\<exists>a b. y = a + k \<and> z = b + k \<and> (a, b) \<in> adj es2)"
    unfolding in_adj_append Un_iff adj_shift by blast
  with adj_lower [OF r, of y z] w obtain b where "z = b + k" "(w, b) \<in> adj es2"
    by auto
  with w show ?case
    by (auto intro: rtrancl_into_rtrancl simp: add.commute)
qed

lemma conn_mono_lower:
  "(v, u) \<in> (adj es1)\<^sup>* \<Longrightarrow> (v, u) \<in> (adj (es1 @ es))\<^sup>*"
  by (rule rtrancl_mono [THEN subsetD, rotated]) (auto simp: in_adj_append)

lemma conn_mono_upper:
  assumes "(v, w) \<in> (adj es2)\<^sup>*"
  shows "(k + v, k + w) \<in> (adj (es1 @ map (shift k) es2))\<^sup>*"
  using assms
proof (induction rule: rtrancl_induct)
  case base
  show ?case by simp
next
  case (step y z)
  from step.hyps(2) have "(k + y, k + z) \<in> adj (es1 @ map (shift k) es2)"
    unfolding in_adj_append Un_iff adj_shift by (auto simp: add.commute)
  with step.IH show ?case
    by (rule rtrancl_into_rtrancl)
qed

lemma comp_lower:
  assumes "set (flatten es1) \<subseteq> {..<k}" and "v < k"
  shows "(adj (es1 @ map (shift k) es2))\<^sup>* `` {v} = (adj es1)\<^sup>* `` {v}"
  using conn_lower [OF assms] conn_mono_lower by blast

lemma comp_upper:
  assumes "set (flatten es1) \<subseteq> {..<k}"
  shows "(adj (es1 @ map (shift k) es2))\<^sup>* `` {k + v} = (\<lambda>w. k + w) ` ((adj es2)\<^sup>* `` {v})"
  using conn_upper [OF assms] conn_mono_upper by blast

lemma label_lower:
  assumes "set (flatten es1) \<subseteq> {..<k}" and "v < k"
  shows "label (es1 @ map (shift k) es2) v = label es1 v"
  by (simp add: label_Min comp_lower [OF assms])

lemma label_upper:
  assumes "set (flatten es1) \<subseteq> {..<k}"
  shows "label (es1 @ map (shift k) es2) (k + v) = k + label es2 v"
proof -
  have "Min ((\<lambda>w. k + w) ` ((adj es2)\<^sup>* `` {v})) = k + Min ((adj es2)\<^sup>* `` {v})"
    by (rule mono_Min_commute [symmetric]) (auto simp: mono_def finite_comp)
  then show ?thesis
    by (simp add: label_Min comp_upper [OF assms])
qed

subsection \<open>Components of a merged skeleton\<close>

lemma index_of_upt: "v < n \<Longrightarrow> index_of [0..<n] v = v"
  using index_of_nth [of "[0..<n]" v] by simp

lemma index_of_map_add: "index_of (map (\<lambda>v. k + v) V) (k + a) = index_of V a"
  by (induction V) simp_all

lemma edge_ends: "e \<in> set es \<Longrightarrow> fst e \<in> set (flatten es) \<and> snd e \<in> set (flatten es)"
  unfolding in_flatten_iff by blast

lemma upt_split: "[0..<k + m] = [0..<k] @ map (\<lambda>v. k + v) [0..<m]"
proof -
  have "map (\<lambda>v. k + v) [0..<m] = [k..<k + m]"
    by (rule nth_equalityI) simp_all
  moreover have "[0..<k + m] = [0..<k] @ [k..<k + m]"
    by (rule upt_add_eq_append) simp
  ultimately show ?thesis
    by (simp only:)
qed

lemma restrict_upt:
  assumes "set (flatten es) \<subseteq> {..<length vs}" and "length rs = length vs"
  shows "restrict \<lparr>vertices = vs @ vs', edges = es', radii = rs @ rs'\<rparr> [0..<length vs] es
     = \<lparr>vertices = vs, edges = es, radii = rs\<rparr>"
proof -
  have "map (\<lambda>i. (vs @ vs') ! i) [0..<length vs] = vs"
    by (rule nth_equalityI) (simp_all add: nth_append)
  moreover have "map (\<lambda>i. (rs @ rs') ! i) [0..<length vs] = rs"
    using assms(2) by (intro nth_equalityI) (simp_all add: nth_append)
  moreover have "map (reindex [0..<length vs]) es = es"
  proof (rule map_idI)
    fix e
    assume "e \<in> set es"
    from edge_ends [OF this] assms(1) have "fst e < length vs" "snd e < length vs"
      by auto
    then show "reindex [0..<length vs] e = e"
      by (simp add: reindex_def index_of_upt)
  qed
  ultimately show ?thesis
    by (simp add: restrict_def)
qed

lemma restrict_shift:
  assumes "length rs = length vs"
  shows "restrict \<lparr>vertices = vs @ vs', edges = es', radii = rs @ rs'\<rparr>
       (map (\<lambda>v. length vs + v) V) (map (shift (length vs)) E)
     = restrict \<lparr>vertices = vs', edges = es'', radii = rs'\<rparr> V E"
proof -
  have "(rs @ rs') ! (length vs + v) = rs' ! v" for v
    unfolding assms [symmetric] by (rule nth_append_length_plus)
  moreover have "reindex (map (\<lambda>v. length vs + v) V) (shift (length vs) e) = reindex V e" for e
    by (simp add: reindex_def shift_def index_of_map_add add.commute [of _ "length vs"])
  ultimately show ?thesis
    by (simp add: restrict_def comp_def)
qed

lemma filter_zero: "0 < k \<Longrightarrow> filter (\<lambda>v. v = 0) [0..<k] = [0]"
  by (cases k) (simp_all add: upt_conv_Cons filter_empty_conv del: upt_Suc)

lemma components_beside:
  fixes c M :: skeleton
  assumes c: "whole c"
  defines "S \<equiv> \<lparr>vertices = vertices c @ vertices M,
      edges = edges c @ map (shift (length (vertices c))) (edges M),
      radii = radii c @ radii M\<rparr>"
  shows "components S = c # components M"
proof -
  define k where "k = length (vertices c)"
  define m where "m = length (vertices M)"
  define L where "L = label (edges c @ map (shift k) (edges M))"
  define LM where "LM = label (edges M)"
  from c have r: "set (flatten (edges c)) \<subseteq> {..<k}" and kpos: "0 < k"
    and rc: "length (radii c) = length (vertices c)"
    and zero: "\<And>v. v < k \<Longrightarrow> label (edges c) v = 0"
    by (simp_all add: whole_def k_def)
  have Ll: "L v = 0" if "v < k" for v
    unfolding L_def using label_lower [OF r that] zero [OF that] by simp
  have Lu: "L (k + v) = k + LM v" for v
    unfolding L_def LM_def by (rule label_upper [OF r])
  have Le: "L (fst e) = 0" if "e \<in> set (edges c)" for e
    using edge_ends [OF that] r by (intro Ll) auto
  have Ls: "L (fst (shift k e)) = k + LM (fst e)" for e
    using Lu [of "fst e"] by (simp add: shift_def add.commute)
  have S_sel: "vertices S = vertices c @ vertices M" "edges S = edges c @ map (shift k) (edges M)"
    "radii S = radii c @ radii M" "length (vertices S) = k + m"
    by (simp_all add: S_def k_def m_def)
  have lowV: "filter P [0..<k] = filter Q [0..<k]" if "\<And>v. v < k \<Longrightarrow> P v = Q v" for P Q
    using that by (intro filter_cong) simp_all
  have roots: "filter (\<lambda>v. L v = v) [0..<k + m]
      = 0 # map (\<lambda>v. k + v) (filter (\<lambda>v. LM v = v) [0..<m])"
  proof -
    have "filter (\<lambda>v. L v = v) [0..<k] = filter (\<lambda>v. v = 0) [0..<k]"
      by (rule lowV) (auto simp: Ll)
    then show ?thesis
      by (simp add: upt_split filter_map comp_def Lu filter_zero [OF kpos])
  qed
  have comp0: "component S 0 = c"
  proof -
    have "filter (\<lambda>v. L v = 0) [0..<k] = filter (\<lambda>v. True) [0..<k]"
      by (rule lowV) (simp add: Ll)
    with kpos have V: "filter (\<lambda>v. L v = 0) [0..<k + m] = [0..<k]"
      by (simp add: upt_split filter_map comp_def Lu)
    have "filter (\<lambda>e. L (fst e) = 0) (edges c) = edges c"
      by (simp add: filter_id_conv Le)
    with kpos have E: "filter (\<lambda>e. L (fst e) = 0) (edges S) = edges c"
      by (simp add: S_sel filter_map comp_def Ls)
    have "component S 0 = restrict S [0..<k] (edges c)"
      unfolding component_def S_sel(4) E [unfolded L_def S_sel(2) [symmetric]]
        V [unfolded L_def S_sel(2) [symmetric]] ..
    also have "\<dots> = \<lparr>vertices = vertices c, edges = edges c, radii = radii c\<rparr>"
      unfolding S_def k_def by (rule restrict_upt [OF r [unfolded k_def] rc])
    finally show ?thesis by simp
  qed
  have compu: "component S (k + q) = component M q" for q
  proof -
    have "filter (\<lambda>v. L v = k + q) [0..<k] = filter (\<lambda>v. False) [0..<k]"
      using kpos by (intro lowV) (simp add: Ll)
    then have V: "filter (\<lambda>v. L v = k + q) [0..<k + m]
        = map (\<lambda>v. k + v) (filter (\<lambda>v. LM v = q) [0..<m])"
      by (simp add: upt_split filter_map comp_def Lu)
    have "filter (\<lambda>e. L (fst e) = k + q) (edges c) = []"
      using kpos by (simp add: filter_empty_conv Le)
    then have E: "filter (\<lambda>e. L (fst e) = k + q) (edges S)
        = map (shift k) (filter (\<lambda>e. LM (fst e) = q) (edges M))"
      by (simp add: S_sel filter_map comp_def Ls)
    have "component S (k + q) = restrict S (map (\<lambda>v. k + v) (filter (\<lambda>v. LM v = q) [0..<m]))
        (map (shift k) (filter (\<lambda>e. LM (fst e) = q) (edges M)))"
      unfolding component_def S_sel(4) E [unfolded L_def S_sel(2) [symmetric]]
        V [unfolded L_def S_sel(2) [symmetric]] ..
    also have "\<dots> = restrict \<lparr>vertices = vertices M, edges = edges M, radii = radii M\<rparr>
        (filter (\<lambda>v. LM v = q) [0..<m]) (filter (\<lambda>e. LM (fst e) = q) (edges M))"
      unfolding S_def k_def by (rule restrict_shift [OF rc])
    also have "\<lparr>vertices = vertices M, edges = edges M, radii = radii M\<rparr> = M"
      by simp
    finally show ?thesis
      by (simp only: component_def LM_def m_def)
  qed
  have "components S = map (component S) (filter (\<lambda>v. L v = v) [0..<k + m])"
    unfolding components_def S_sel(4) L_def S_sel(2) [symmetric] ..
  also have "\<dots> = c # map (component M) (filter (\<lambda>v. LM v = v) [0..<m])"
    by (simp add: roots comp0 compu comp_def)
  finally show ?thesis
    by (simp add: components_def LM_def m_def)
qed

lemma flatten_shift: "flatten (map (shift k) es) = map (\<lambda>v. v + k) (flatten es)"
  by (induction es rule: flatten.induct) (simp_all add: shift_def)

lemma set_beside: "{..<k} \<union> (\<lambda>v. v + k) ` {..<m} = {..<k + (m::nat)}"
proof (rule set_eqI)
  fix x
  have "x \<in> (\<lambda>v. v + k) ` {..<m} \<longleftrightarrow> k \<le> x \<and> x < k + m"
  proof
    assume "x \<in> (\<lambda>v. v + k) ` {..<m}"
    then show "k \<le> x \<and> x < k + m" by auto
  next
    assume "k \<le> x \<and> x < k + m"
    then have "x - k < m" "x = (x - k) + k" by linarith+
    then show "x \<in> (\<lambda>v. v + k) ` {..<m}" by blast
  qed
  then show "x \<in> {..<k} \<union> (\<lambda>v. v + k) ` {..<m} \<longleftrightarrow> x \<in> {..<k + m}"
    by auto
qed

lemma components_empty_skeleton: "components empty_skeleton = []"
  by (simp add: components_def empty_skeleton_def)

text \<open>Merging whole pieces puts them side by side: the pieces are the components.\<close>

lemma merge_whole:
  assumes "\<forall>c \<in> set cs. whole c"
  shows "components (simple_merge cs) = cs
     \<and> length (radii (simple_merge cs)) = length (vertices (simple_merge cs))
     \<and> set (flatten (edges (simple_merge cs))) = {..<length (vertices (simple_merge cs))}"
  using assms
proof (induction cs)
  case Nil
  show ?case
    by (simp add: components_empty_skeleton) (simp add: empty_skeleton_def)
next
  case (Cons c cs)
  then have c: "whole c" and IH: "components (simple_merge cs) = cs"
    "length (radii (simple_merge cs)) = length (vertices (simple_merge cs))"
    "set (flatten (edges (simple_merge cs))) = {..<length (vertices (simple_merge cs))}"
    by simp_all
  from components_beside [OF c, of "simple_merge cs"] IH(1)
  have "components (simple_merge (c # cs)) = c # cs"
    by simp
  moreover from c IH(2) have "length (radii (simple_merge (c # cs)))
      = length (vertices (simple_merge (c # cs)))"
    by (simp add: whole_def)
  moreover from c IH(3) have "set (flatten (edges (simple_merge (c # cs))))
      = {..<length (vertices (simple_merge (c # cs)))}"
    by (simp add: whole_def flatten_append flatten_shift set_beside)
  ultimately show ?case
    by (simp only:) 
qed

lemma consolidate_full:
  assumes "length (radii s) = length (vertices s)"
    and "set (flatten (edges s)) = {..<length (vertices s)}"
  shows "consolidate s = s"
proof -
  have "np_unique (flatten (edges s)) = [0..<length (vertices s)]"
    by (rule sorted_distinct_set_unique)
      (simp_all add: sorted_np_unique distinct_np_unique set_np_unique assms(2) atLeast0LessThan)
  moreover from restrict_upt [of "edges s" "vertices s" "radii s" "[]" "edges s" "[]"] assms
  have "restrict s [0..<length (vertices s)] (edges s) = s"
    by (simp add: restrict_def)
  ultimately show ?thesis
    by (simp add: consolidate_def)
qed

subsection \<open>The components of a well-formed skeleton\<close>








subsection \<open>The two pieces\<close>






subsection \<open>Skeletons that no pass changes\<close>

lemma map_result_id: "(\<And>x. x \<in> set xs \<Longrightarrow> f x = Inr x) \<Longrightarrow> map_result f xs = Inr xs"
  by (induction xs) simp_all

lemma has_edge_sort_row: "has_edge G e \<Longrightarrow> sort_row e \<in> sort_row ` set G"
proof -
  assume "has_edge G e"
  then consider "e \<in> set G" | "(snd e, fst e) \<in> set G"
    by (auto simp: has_edge_def)
  then show ?thesis
  proof cases
    case 1
    then show ?thesis by simp
  next
    case 2
    moreover have "sort_row (snd e, fst e) = sort_row e"
      by (simp add: sort_row_def min.commute max.commute)
    ultimately show ?thesis
      by (metis image_eqI)
  qed
qed

lemma fold_add_edge_distinct:
  "distinct (map sort_row (G @ es)) \<Longrightarrow> fold (\<lambda>e g. add_edge g e) es G = G @ es"
proof (induction es arbitrary: G)
  case Nil
  show ?case by simp
next
  case (Cons e es)
  from Cons.prems have "sort_row e \<notin> sort_row ` set G"
    by auto
  with has_edge_sort_row [of G e] have "add_edge G e = G @ [e]"
    by (auto simp: add_edge_def)
  moreover from Cons.prems have "distinct (map sort_row ((G @ [e]) @ es))"
    by simp
  from Cons.IH [OF this] have "fold (\<lambda>e g. add_edge g e) es (G @ [e]) = G @ e # es"
    by simp
  ultimately show ?case
    by simp
qed

lemma add_edges_from_distinct:
  "distinct (map sort_row es) \<Longrightarrow> add_edges_from [] es = es"
  using fold_add_edge_distinct [of "[]" es] by (simp add: add_edges_from_def)

lemma whole_not_empty: "whole c \<Longrightarrow> \<not> empty c"
proof
  assume w: "whole c" and e: "empty c"
  from w have "vertices c \<noteq> []" and "set (flatten (edges c)) = {..<length (vertices c)}"
    by (simp_all add: whole_def)
  with e show False
    by (auto simp: empty_def)
qed

lemma block_form_consolidate:
  assumes "block_form r"
  shows "consolidate r = r"
proof -
  from assms have m: "simple_merge (components r) = r" and w: "\<forall>c \<in> set (components r). whole c"
    by (simp_all add: block_form_def)
  from merge_whole [OF w] have "length (radii r) = length (vertices r)"
    and "set (flatten (edges r)) = {..<length (vertices r)}"
    unfolding m by simp_all
  then show ?thesis
    by (rule consolidate_full)
qed

lemma remove_dust_settled:
  assumes b: "block_form r" and long: "\<forall>c \<in> set (components r). d < cable_length c"
  shows "remove_dust r d = r"
proof -
  from long have "filter (\<lambda>skel. cable_length skel > d) (components r) = components r"
    by (simp add: filter_id_conv)
  with b block_form_consolidate [OF b] show ?thesis
    by (simp add: remove_dust_def block_form_def)
qed

lemma remove_loops1_settled:
  assumes "find_cycle (edges c) (length (vertices c)) = []" and "0 < fuel"
  shows "remove_loops1 fuel c = Inr c"
proof -
  from assms(2) obtain k where "fuel = Suc k"
    by (cases fuel) auto
  with assms(1) show ?thesis
    by (simp add: remove_loops1_def)
qed

lemma remove_loops_settled:
  assumes b: "block_form r" and fuel: "0 < fuel"
    and acyc: "\<forall>c \<in> set (components r). find_cycle (edges c) (length (vertices c)) = []"
  shows "remove_loops fuel r = Inr r"
proof -
  have "map_result (remove_loops1 fuel) (components r) = Inr (components r)"
    using acyc fuel by (intro map_result_id remove_loops1_settled) simp_all
  with b block_form_consolidate [OF b] show ?thesis
    by (simp add: remove_loops_def block_form_def)
qed

lemma connect_pieces_settled:
  assumes b: "block_form r" and fuel: "0 < fuel"
    and none: "sweep (vertices r) (radii r) (find_connected (vertices r) (edges r))
       (combination_pairs (length (find_connected (vertices r) (edges r)))) = None"
  shows "connect_pieces fuel r = Inr r"
proof -
  from fuel obtain k where "fuel = Suc k"
    by (cases fuel) auto
  with none have "connect_loop fuel (vertices r) (radii r) (edges r) = Inr (edges r)"
    by (simp add: Let_def)
  with block_form_consolidate [OF b] show ?thesis
    by (simp add: connect_pieces_def)
qed

lemma remove_ticks1_settled:
  assumes w: "whole c" and dis: "distinct (map sort_row (edges c))"
    and dg: "create_distance_graph fuel c = Inr dg"
    and stop: "length dg \<le> 1 \<or> ticks_step t (terminal_nodes_of (edges c))
        (dg, initial_branch_counts (edges c), edges c) = Inr None"
  shows "remove_ticks1 fuel c t = Inr c"
proof -
  have G: "add_edges_from [] (edges c) = edges c"
    by (rule add_edges_from_distinct [OF dis])
  have "ticks_loop t (terminal_nodes_of (edges c)) (dg, initial_branch_counts (edges c), edges c)
      = Inr (edges c)"
  proof (cases "length dg \<le> 1")
    case True
    then show ?thesis
      by (subst ticks_loop.simps) simp
  next
    case False
    with stop have "ticks_step t (terminal_nodes_of (edges c))
        (dg, initial_branch_counts (edges c), edges c) = Inr None"
      by simp
    then show ?thesis
      by (subst ticks_loop.simps) simp
  qed
  moreover have "consolidate c = c"
    using w by (intro consolidate_full) (simp_all add: whole_def)
  ultimately show ?thesis
    using whole_not_empty [OF w] dg by (simp add: remove_ticks1_def G)
qed

lemma remove_ticks_settled:
  assumes b: "block_form r"
    and ticks: "\<forall>c \<in> set (components r). distinct (map sort_row (edges c))
       \<and> (\<exists>dg. create_distance_graph fuel c = Inr dg
            \<and> (length dg \<le> 1 \<or> ticks_step t (terminal_nodes_of (edges c))
                 (dg, initial_branch_counts (edges c), edges c) = Inr None))"
  shows "remove_ticks fuel r t = Inr r"
proof -
  have "remove_ticks1 fuel c t = Inr c" if "c \<in> set (components r)" for c
  proof -
    from b that have w: "whole c"
      by (simp add: block_form_def)
    from ticks that obtain dg where "distinct (map sort_row (edges c))"
      and "create_distance_graph fuel c = Inr dg"
      and "length dg \<le> 1 \<or> ticks_step t (terminal_nodes_of (edges c))
                 (dg, initial_branch_counts (edges c), edges c) = Inr None"
      by blast
    with w show ?thesis
      by (rule remove_ticks1_settled)
  qed
  then have "map_result (\<lambda>c. remove_ticks1 fuel c t) (components r) = Inr (components r)"
    by (intro map_result_id) simp
  with b block_form_consolidate [OF b] show ?thesis
    by (simp add: remove_ticks_def block_form_def)
qed

lemma trim_skeleton_settled:
  assumes fuel: "0 < fuel" and b: "block_form r"
    and long: "\<forall>c \<in> set (components r). d < cable_length c"
    and acyc: "\<forall>c \<in> set (components r). find_cycle (edges c) (length (vertices c)) = []"
    and none: "sweep (vertices r) (radii r) (find_connected (vertices r) (edges r))
       (combination_pairs (length (find_connected (vertices r) (edges r)))) = None"
    and ticks: "\<forall>c \<in> set (components r). distinct (map sort_row (edges c))
       \<and> (\<exists>dg. create_distance_graph fuel c = Inr dg
            \<and> (length dg \<le> 1 \<or> ticks_step t (terminal_nodes_of (edges c))
                 (dg, initial_branch_counts (edges c), edges c) = Inr None))"
  shows "trim_skeleton fuel r d t = Inr r"
  by (simp add: trim_skeleton_def remove_dust_settled [OF b long]
      remove_loops_settled [OF b fuel acyc] connect_pieces_settled [OF b fuel none]
      remove_ticks_settled [OF b ticks])

lemma remove_dust_fork_5: "remove_dust fork 5 = fork"
  by (simp add: remove_dust_def components_fork cable_length_fork consolidate_fork
      simple_merge_single fork_not_empty del: simple_merge.simps)

lemma trim_skeleton_fork_5: "trim_skeleton 4 fork 5 4 = Inr stem"
  by (simp add: trim_skeleton_def remove_dust_fork_5 remove_loops_fork connect_pieces_fork
      remove_ticks_fork)

lemma stem_sel: "vertices stem = [(- 4, 0, 0), (0, 0, 0), (4, 0, 0)]" "edges stem = stem_edges"
  "radii stem = [1, 1, 1]"
  by (simp_all add: stem_def)

lemma labels_stem: "map (label stem_edges) [0, 1, 2] = [0, 0, 0]"
  by (simp add: stem_edges_def label_def reach_def grow_def)

lemma whole_stem: "whole stem"
proof -
  have "label stem_edges v = 0" if "v < 3" for v
  proof -
    from that consider "v = 0" | "v = 1" | "v = 2"
      by linarith
    then show ?thesis
      using labels_stem by cases simp_all
  qed
  moreover have "set (flatten stem_edges) = {..<3}"
    by (auto simp: stem_edges_def)
  ultimately show ?thesis
    by (simp add: whole_def stem_sel)
qed

lemma block_form_stem: "block_form stem"
  by (simp add: block_form_def components_stem whole_stem simple_merge_single
      del: simple_merge.simps)

lemma find_cycle_stem: "find_cycle stem_edges n = []"
  by (simp add: stem_edges_def find_cycle_def remove_edge_def)

lemma sweep_stem:
  "sweep (vertices stem) (radii stem) (find_connected (vertices stem) (edges stem))
     (combination_pairs (length (find_connected (vertices stem) (edges stem)))) = None"
  by (simp add: find_connected_def combination_pairs_def Let_def stem_sel stem_edges_def
      label_def reach_def grow_def np_unique_def upt_conv_Cons)

lemma create_distance_graph_stem: "create_distance_graph 4 stem = Inr [([0, 2], 8)]"
  by (simp add: create_distance_graph_def stem_def stem_edges_def
      terminal_nodes_of_def branch_nodes_of_def np_unique_def unique_count_def
      four norm3_x dict_set_def)

subsection \<open>The cycle loop\<close>

lemma find_cycle_kite: "find_cycle kite_edges n = kite_cycle"
  by (simp add: find_cycle_def kite_edges_def kite_cycle_def remove_edge_def Let_def
      cong: let_weak_cong)

lemma find_cycle_kite_pruned: "find_cycle kite_pruned n = []"
  by (simp add: find_cycle_def kite_pruned_def remove_edge_def Let_def
      cong: let_weak_cong)

lemma branch_cycle_kite: "branch_cycle_of kite_edges kite_cycle = [0]"
  by (simp add: branch_cycle_of_def nodes_cycle_of_def kite_edges_def kite_cycle_def
      sort_row_def np_unique_def unique_count_def)

lemma loop_step_kite:
  "loop_step kite_vertices (kite_edges, kite_edges) kite_cycle = Inr (kite_pruned, kite_pruned)"
  by (simp add: loop_step_def branch_cycle_kite Let_def cong: let_weak_cong)
    (simp add: kite_vertices_def kite_edges_def kite_cycle_def kite_pruned_def nodes_cycle_of_def
      argmax_def np_max_def sort_row_def remove_row_def find_row_def np_delete_def np_unique_def
      remove_edges_from_def remove_edge_def add_edges_from_def add_edge_def has_edge_def
      upt_conv_Cons enumerate_eq_zip Let_def power2_eq_square cong: let_weak_cong)

lemma loops_reach_trans:
  assumes "loops_reach nodes st1 st2"
  shows "loops_reach nodes st st1 \<Longrightarrow> loops_reach nodes st st2"
  using assms by (induction rule: loops_reach.induct) (auto intro: loops_reach.round)

lemma loops_loop_returns:
  assumes "\<forall>st'. loops_reach nodes st st' \<longrightarrow> find_cycle (snd st') (length nodes) \<noteq> []
       \<longrightarrow> (\<exists>st''. loop_step nodes st' (find_cycle (snd st') (length nodes)) = Inr st''
              \<and> length (snd st'') < length (snd st'))"
    and "length (snd st) < fuel"
  shows "\<exists>r. loops_loop fuel nodes st = Inr r"
  using assms
proof (induction fuel arbitrary: st)
  case 0
  then show ?case by simp
next
  case (Suc fuel)
  show ?case
  proof (cases "find_cycle (snd st) (length nodes) = []")
    case True
    then show ?thesis by (simp add: Let_def)
  next
    case False
    with Suc.prems(1) loops_reach.start [of nodes st] obtain st'' where
      step: "loop_step nodes st (find_cycle (snd st) (length nodes)) = Inr st''"
      and less: "length (snd st'') < length (snd st)"
      by blast
    have r: "loops_reach nodes st st''"
      using loops_reach.start False step by (rule loops_reach.round)
    have "\<forall>st'. loops_reach nodes st'' st' \<longrightarrow> find_cycle (snd st') (length nodes) \<noteq> []
       \<longrightarrow> (\<exists>st'''. loop_step nodes st' (find_cycle (snd st') (length nodes)) = Inr st'''
              \<and> length (snd st''') < length (snd st'))"
      using Suc.prems(1) loops_reach_trans [OF _ r] by blast
    moreover from less Suc.prems(2) have "length (snd st'') < fuel"
      by simp
    ultimately obtain r' where "loops_loop fuel nodes st'' = Inr r'"
      using Suc.IH by blast
    with False step show ?thesis
      by (simp add: Let_def)
  qed
qed

lemma loops_loop_no_cycle:
  "loops_loop fuel nodes st = Inr r \<Longrightarrow> find_cycle r (length nodes) = []"
proof (induction fuel arbitrary: st)
  case 0
  then show ?case by simp
next
  case (Suc fuel)
  show ?case
  proof (cases "find_cycle (snd st) (length nodes) = []")
    case True
    with Suc.prems show ?thesis by (simp add: Let_def)
  next
    case False
    with Suc.prems obtain st' where "loops_loop fuel nodes st' = Inr r"
      by (auto simp: Let_def elim: bind_result_InrE)
    then show ?thesis by (rule Suc.IH)
  qed
qed

lemma kite_reach:
  assumes "loops_reach kite_vertices (kite_edges, kite_edges) st'"
  shows "st' = (kite_edges, kite_edges) \<or> st' = (kite_pruned, kite_pruned)"
  using assms
proof (induction rule: loops_reach.induct)
  case start
  show ?case by simp
next
  case (round st1 st2)
  from round.IH show ?case
  proof
    assume "st1 = (kite_edges, kite_edges)"
    with round.hyps(3) show ?thesis
      by (simp add: find_cycle_kite loop_step_kite)
  next
    assume "st1 = (kite_pruned, kite_pruned)"
    with round.hyps(2) show ?thesis
      by (simp add: find_cycle_kite_pruned)
  qed
qed

lemma kite_shrinks:
  "\<forall>st'. loops_reach kite_vertices (kite_edges, kite_edges) st'
     \<longrightarrow> find_cycle (snd st') (length kite_vertices) \<noteq> []
     \<longrightarrow> (\<exists>st''. loop_step kite_vertices st' (find_cycle (snd st') (length kite_vertices)) = Inr st''
            \<and> length (snd st'') < length (snd st'))"
proof (intro allI impI)
  fix st'
  assume "loops_reach kite_vertices (kite_edges, kite_edges) st'"
    and c: "find_cycle (snd st') (length kite_vertices) \<noteq> []"
  from kite_reach [OF this(1)] c have "st' = (kite_edges, kite_edges)"
    by (auto simp: find_cycle_kite_pruned)
  then show "\<exists>st''. loop_step kite_vertices st' (find_cycle (snd st') (length kite_vertices)) = Inr st''
            \<and> length (snd st'') < length (snd st')"
    by (simp add: find_cycle_kite loop_step_kite) (simp add: kite_edges_def kite_pruned_def)
qed

lemma loops_loop_kite:
  "loops_loop (Suc (Suc (Suc (Suc (Suc 0))))) kite_vertices (kite_edges, kite_edges) = Inr kite_pruned"
  by (simp add: find_cycle_kite loop_step_kite find_cycle_kite_pruned) (simp add: kite_cycle_def)

section \<open>Claims\<close>

subsection \<open>C8: malformed input\<close>

text \<open>
  C8, as stated, fails: \<^verbatim>\<open>trim_skeleton\<close> has no validation step. The skeleton
  \<open>dangling\<close> has an edge between two vertices that do not exist and one radius for no
  vertex; it is empty, so every pass returns it as it is and no error is raised.
\<close>

theorem malformed_input_is_returned:
  "malformed dangling \<and> trim_skeleton 0 dangling 4000 6000 = Inr dangling"
  by (simp add: malformed_def dangling_def trim_skeleton_def passes_empty empty_def)

text \<open>
  C8, amended: \<^verbatim>\<open>trim_skeleton\<close> checks nothing about its input; a skeleton that
  is empty (no vertex or no edge row), malformed or not, is returned unchanged and
  without an error, for every pair of thresholds.
\<close>

theorem trim_skeleton_returns_empty_input:
  "empty s \<Longrightarrow> trim_skeleton fuel s d t = Inr s"
  by (rule trim_skeleton_empty)

theorem trim_skeleton_returns_empty_input_witness:
  "empty bare \<and> malformed bare \<and> trim_skeleton 3 bare 1 2 = Inr bare"
proof -
  have e: "empty bare"
    by (simp add: empty_def bare_def)
  have "malformed bare"
    by (simp add: malformed_def bare_def)
  with e trim_skeleton_returns_empty_input [OF e, of 3 1 2] show ?thesis
    by simp
qed

subsection \<open>C7: idempotence\<close>

text \<open>
  C7, as stated, fails. Trimming the fork with dust threshold 10 and tick threshold 4
  removes the tick and leaves the stem, of cable length 8; trimming the stem again
  removes it as dust. The second result has no vertex where the first has three.
\<close>

theorem trim_skeleton_not_idempotent:
  "trim_skeleton 4 fork 10 4 = Inr stem \<and> trim_skeleton 4 stem 10 4 = Inr empty_skeleton
   \<and> length (vertices stem) = 3 \<and> length (vertices empty_skeleton) = 0"
  by (simp add: trim_skeleton_fork trim_skeleton_stem) (simp add: stem_def empty_skeleton_def)

text \<open>
  C7, amended: a second application of \<^verbatim>\<open>trim_skeleton\<close> starts with dust removal
  on components that loop and tick removal may have shortened, so it can remove more.
  It returns the first result \<open>r\<close> unchanged when \<open>r\<close> gives no pass anything to do:
  \<open>r\<close> is the merge of its components, each of them whole; every component is longer
  than the dust threshold; the detector finds no cycle in any component; no pair of
  components passes the radius test; and in every component the pruning loop is left
  before its first pruning.
\<close>

theorem trim_skeleton_idempotent_on_settled_result:
  assumes out: "trim_skeleton fuel s d t = Inr r" and fuel: "0 < fuel"
    and b: "simple_merge (components r) = r \<and> (\<forall>c \<in> set (components r). whole c)"
    and long: "\<forall>c \<in> set (components r). d < cable_length c"
    and acyc: "\<forall>c \<in> set (components r). find_cycle (edges c) (length (vertices c)) = []"
    and none: "sweep (vertices r) (radii r) (find_connected (vertices r) (edges r))
       (combination_pairs (length (find_connected (vertices r) (edges r)))) = None"
    and ticks: "\<forall>c \<in> set (components r). distinct (map sort_row (edges c))
       \<and> (\<exists>dg. create_distance_graph fuel c = Inr dg
            \<and> (length dg \<le> 1 \<or> ticks_step t (terminal_nodes_of (edges c))
                 (dg, initial_branch_counts (edges c), edges c) = Inr None))"
  shows "trim_skeleton fuel r d t = Inr r
     \<and> bind_result (trim_skeleton fuel s d t) (\<lambda>r. trim_skeleton fuel r d t)
         = trim_skeleton fuel s d t"
proof -
  from b have "block_form r"
    by (simp add: block_form_def)
  from trim_skeleton_settled [OF fuel this long acyc none ticks] out show ?thesis
    by simp
qed

theorem trim_skeleton_idempotent_on_settled_result_witness:
  "trim_skeleton 4 fork 5 4 = Inr stem \<and> components stem = [stem] \<and> whole stem
   \<and> simple_merge [stem] = stem \<and> 5 < cable_length stem
   \<and> find_cycle (edges stem) (length (vertices stem)) = []
   \<and> create_distance_graph 4 stem = Inr [([0, 2], 8)]
   \<and> trim_skeleton 4 stem 5 4 = Inr stem
   \<and> bind_result (trim_skeleton 4 fork 5 4) (\<lambda>r. trim_skeleton 4 r 5 4)
       = trim_skeleton 4 fork 5 4"
proof -
  have b: "simple_merge (components stem) = stem \<and> (\<forall>c \<in> set (components stem). whole c)"
    using block_form_stem by (simp add: block_form_def)
  have long: "\<forall>c \<in> set (components stem). 5 < cable_length c"
    by (simp add: components_stem cable_length_stem)
  have acyc: "\<forall>c \<in> set (components stem). find_cycle (edges c) (length (vertices c)) = []"
    by (simp add: components_stem stem_sel find_cycle_stem)
  have ticks: "\<forall>c \<in> set (components stem). distinct (map sort_row (edges c))
       \<and> (\<exists>dg. create_distance_graph 4 c = Inr dg
            \<and> (length dg \<le> 1 \<or> ticks_step 4 (terminal_nodes_of (edges c))
                 (dg, initial_branch_counts (edges c), edges c) = Inr None))"
    by (simp add: components_stem create_distance_graph_stem)
      (simp add: stem_sel stem_edges_def sort_row_def)
  have m: "simple_merge [stem] = stem"
    by (rule simple_merge_single)
  have f: "find_cycle (edges stem) (length (vertices stem)) = []"
    by (simp add: stem_sel find_cycle_stem)
  from trim_skeleton_idempotent_on_settled_result
    [OF trim_skeleton_fork_5 _ b long acyc sweep_stem ticks]
  have "trim_skeleton 4 stem 5 4 = Inr stem
     \<and> bind_result (trim_skeleton 4 fork 5 4) (\<lambda>r. trim_skeleton 4 r 5 4)
         = trim_skeleton 4 fork 5 4"
    by simp
  with trim_skeleton_fork_5 components_stem whole_stem m cable_length_stem f
    create_distance_graph_stem show ?thesis
    by simp
qed

subsection \<open>C2: the radius test of piece connection\<close>

text \<open>
  C2: for an examined pair of components \<open>P\<close> and \<open>Q\<close> (masks with a vertex each),
  the function \<open>bridge\<close> picks a pair \<open>(p, q)\<close> of least distance between \<open>P\<close> and
  \<open>Q\<close> and returns the edge \<open>(p, q)\<close> if and only if the radii of \<open>p\<close> and \<open>q\<close>
  add up to at least that distance; after an admitted edge the loop appends this one
  edge and computes the components afresh. For the two collinear paths with a gap of
  ten and radii 3, no edge is added and two components remain.
\<close>

theorem bridge_iff_radius_test:
  assumes "np_where P \<noteq> []" and "np_where Q \<noteq> []"
  shows "(\<exists>p q. p \<in> set (np_where P) \<and> q \<in> set (np_where Q)
           \<and> (\<forall>p' \<in> set (np_where P). \<forall>q' \<in> set (np_where Q).
                  norm3 (nodes ! p) (nodes ! q) \<le> norm3 (nodes ! p') (nodes ! q'))
           \<and> (bridge nodes rs P Q = Some (p, q)
                  \<longleftrightarrow> rs ! p + rs ! q \<ge> norm3 (nodes ! p) (nodes ! q))
           \<and> (bridge nodes rs P Q = None
                  \<longleftrightarrow> \<not> rs ! p + rs ! q \<ge> norm3 (nodes ! p) (nodes ! q)))
     \<and> connect_loop (Suc fuel) nodes rs es =
          (case sweep nodes rs (find_connected nodes es)
                  (combination_pairs (length (find_connected nodes es))) of
             Some new_edge \<Rightarrow> connect_loop fuel nodes rs (es @ [new_edge])
           | None \<Rightarrow> Inr es)
     \<and> connect_pieces 4 thin = Inr thin
     \<and> length (find_connected (vertices thin) (edges thin)) = 2"
proof (intro conjI)
  from bridge_closest_pair [OF assms, of nodes rs] obtain p q where
    pq: "p \<in> set (np_where P)" "q \<in> set (np_where Q)"
      "\<forall>p' \<in> set (np_where P). \<forall>q' \<in> set (np_where Q).
          norm3 (nodes ! p) (nodes ! q) \<le> norm3 (nodes ! p') (nodes ! q')"
    and br: "bridge nodes rs P Q =
       (if rs ! p + rs ! q \<ge> norm3 (nodes ! p) (nodes ! q) then Some (p, q) else None)"
    by blast
  from br have "bridge nodes rs P Q = Some (p, q)
      \<longleftrightarrow> rs ! p + rs ! q \<ge> norm3 (nodes ! p) (nodes ! q)"
    and "bridge nodes rs P Q = None \<longleftrightarrow> \<not> rs ! p + rs ! q \<ge> norm3 (nodes ! p) (nodes ! q)"
    by simp_all
  with pq show "\<exists>p q. p \<in> set (np_where P) \<and> q \<in> set (np_where Q)
           \<and> (\<forall>p' \<in> set (np_where P). \<forall>q' \<in> set (np_where Q).
                  norm3 (nodes ! p) (nodes ! q) \<le> norm3 (nodes ! p') (nodes ! q'))
           \<and> (bridge nodes rs P Q = Some (p, q)
                  \<longleftrightarrow> rs ! p + rs ! q \<ge> norm3 (nodes ! p) (nodes ! q))
           \<and> (bridge nodes rs P Q = None
                  \<longleftrightarrow> \<not> rs ! p + rs ! q \<ge> norm3 (nodes ! p) (nodes ! q))"
    by (intro exI [of _ p] exI [of _ q]) simp
  show "connect_loop (Suc fuel) nodes rs es =
          (case sweep nodes rs (find_connected nodes es)
                  (combination_pairs (length (find_connected nodes es))) of
             Some new_edge \<Rightarrow> connect_loop fuel nodes rs (es @ [new_edge])
           | None \<Rightarrow> Inr es)"
    by (simp add: Let_def)
  show "connect_pieces 4 thin = Inr thin"
    by (rule connect_pieces_thin)
  show "length (find_connected (vertices thin) (edges thin)) = 2"
    by (simp add: thin_def find_connected_gap gap_masks_def)
qed

theorem bridge_iff_radius_test_witness:
  "np_where (gap_masks ! 0) \<noteq> [] \<and> np_where (gap_masks ! Suc 0) \<noteq> []
   \<and> bridge gap_vertices thick_radii (gap_masks ! 0) (gap_masks ! Suc 0) = Some (2, 3)
   \<and> connect_pieces 4 thin = Inr thin"
proof -
  have P: "np_where (gap_masks ! 0) \<noteq> []"
    by (simp add: gap_masks_def np_where_def upt_conv_Cons)
  have Q: "np_where (gap_masks ! Suc 0) \<noteq> []"
    by (simp add: gap_masks_def np_where_def upt_conv_Cons)
  from bridge_iff_radius_test [OF P Q, of gap_vertices thick_radii 0 gap_edges]
  have "connect_pieces 4 thin = Inr thin"
    by simp
  with P Q bridge_thick show ?thesis
    by simp
qed

subsection \<open>C5: a cycle with three or more branch vertices\<close>

text \<open>
  C5: when the detected cycle has three or more branch vertices \<open>B\<close>, one round of
  the loop removes every row of the cycle from the edge array (and the cycle's edges
  from the graph), takes the vertex \<open>v\<close>, among all vertices of the skeleton, whose
  squared distance to the centroid of \<open>B\<close> is least, and adds the edge \<open>(b, v)\<close> for
  every \<open>b\<close> in \<open>B\<close> other than \<open>v\<close>.
\<close>

theorem multi_branch_cycle_step:
  assumes B: "3 \<le> length (branch_cycle_of es found)" and nodes: "nodes \<noteq> []"
  shows "\<exists>v. v < length nodes
     \<and> (\<forall>u < length nodes.
           sqdist (nodes ! v) (centroid_of (map (\<lambda>b. nodes ! b) (branch_cycle_of es found)))
             \<le> sqdist (nodes ! u) (centroid_of (map (\<lambda>b. nodes ! b) (branch_cycle_of es found))))
     \<and> loop_step nodes (G, es) found =
          Inr (add_edges_from (remove_edges_from G (map sort_row found))
                 (filter (\<lambda>e. fst e \<noteq> v) (map (\<lambda>b. (b, v)) (branch_cycle_of es found))),
               remove_row es (map sort_row found)
                 @ filter (\<lambda>e. fst e \<noteq> v) (map (\<lambda>b. (b, v)) (branch_cycle_of es found)))
     \<and> set (remove_row es (map sort_row found)) = set (map sort_row es) - set (map sort_row found)
     \<and> set (filter (\<lambda>e. fst e \<noteq> v) (map (\<lambda>b. (b, v)) (branch_cycle_of es found)))
          = {(b, v) | b. b \<in> set (branch_cycle_of es found) \<and> b \<noteq> v}"
proof (intro exI conjI)
  let ?c = "centroid_of (map (\<lambda>b. nodes ! b) (branch_cycle_of es found))"
  let ?d = "map (\<lambda>p. sqdist p ?c) nodes"
  show "loop_step nodes (G, es) found =
          Inr (add_edges_from (remove_edges_from G (map sort_row found))
                 (filter (\<lambda>e. fst e \<noteq> argmin ?d) (map (\<lambda>b. (b, argmin ?d)) (branch_cycle_of es found))),
               remove_row es (map sort_row found)
                 @ filter (\<lambda>e. fst e \<noteq> argmin ?d) (map (\<lambda>b. (b, argmin ?d)) (branch_cycle_of es found)))"
    by (rule loop_step_multi [OF B])
  show "argmin ?d < length nodes"
    using argmin_less [of ?d] nodes by simp
  show "\<forall>u<length nodes. sqdist (nodes ! argmin ?d) ?c \<le> sqdist (nodes ! u) ?c"
  proof (intro allI impI)
    fix u
    assume u: "u < length nodes"
    then have "?d ! argmin ?d \<le> ?d ! u"
      by (intro argmin_least) simp
    moreover have "argmin ?d < length nodes"
      using argmin_less [of ?d] nodes by simp
    ultimately show "sqdist (nodes ! argmin ?d) ?c \<le> sqdist (nodes ! u) ?c"
      using u by simp
  qed
  show "set (remove_row es (map sort_row found))
      = set (map sort_row es) - set (map sort_row found)"
    by (auto simp: remove_row_eq sort_row_idem)
  show "set (filter (\<lambda>e. fst e \<noteq> argmin ?d) (map (\<lambda>b. (b, argmin ?d)) (branch_cycle_of es found)))
          = {(b, argmin ?d) | b. b \<in> set (branch_cycle_of es found) \<and> b \<noteq> argmin ?d}"
    by (rule set_new_edges)
qed

theorem multi_branch_cycle_step_witness:
  "3 \<le> length (branch_cycle_of knot_edges knot_cycle) \<and> knot_vertices \<noteq> []
   \<and> loop_step knot_vertices (knot_edges, knot_edges) knot_cycle = Inr (star_edges, star_edges)
   \<and> set (remove_row knot_edges (map sort_row knot_cycle))
       = set (map sort_row knot_edges) - set (map sort_row knot_cycle)"
proof -
  have B: "3 \<le> length (branch_cycle_of knot_edges knot_cycle)"
    by (simp add: branch_cycle_knot)
  have n: "knot_vertices \<noteq> []"
    by (simp add: knot_vertices_def)
  from multi_branch_cycle_step [OF B n, of knot_edges]
  have "set (remove_row knot_edges (map sort_row knot_cycle))
       = set (map sort_row knot_edges) - set (map sort_row knot_cycle)"
    by blast
  with B n loop_step_knot show ?thesis
    by simp
qed

subsection \<open>C6: the branch counts\<close>

text \<open>
  C6, as stated, fails. In the fork, vertex 0 is a terminal and lies on one superedge,
  yet its branch count is 0, not 1: only the vertices that occur three times or more
  are entered in \<^verbatim>\<open>branch_counts\<close>. With threshold 3 the first round leaves the loop
  on the superedge \<open>(1, 3)\<close> of length 3, whose ends have the counts 3 and 0, not 1
  and 1.
\<close>

theorem terminal_branch_count_is_zero:
  "create_distance_graph 4 fork = Inr fork_dgraph
   \<and> unique_count fork_edges 0 = 1
   \<and> length (filter (\<lambda>p. 0 \<in> set (fst p)) fork_dgraph) = 1
   \<and> initial_branch_counts fork_edges 0 = 0
   \<and> ticks_step 3 [0, 2, 3] (fork_dgraph, initial_branch_counts fork_edges, fork_edges) = Inr None
   \<and> min_entry fork_dgraph = Some ([1, 3], 3)
   \<and> initial_branch_counts fork_edges 1 = 3
   \<and> initial_branch_counts fork_edges 3 = 0"
  by (simp add: create_distance_graph_fork)
    (simp add: fork_edges_def fork_dgraph_def unique_count_def initial_branch_counts_def
      ticks_step_def Let_def cong: let_weak_cong bind_result_weak_cong)

text \<open>
  C6, amended: \<^verbatim>\<open>branch_counts\<close> holds the number of occurrences in the edge array of
  the vertices that occur three times or more, and reads 0 for every other vertex,
  terminals included. At the head of every round each count is at most 0 or at least
  3, so the test that both ends of the shortest terminal superedge have the count 1
  never holds: the round leaves the loop without pruning exactly when that superedge is
  at least as long as the threshold. A round that prunes the superedge \<open>(e1, e2)\<close>
  decrements the counts of \<open>e1\<close> and \<open>e2\<close>, and a count that becomes 2 is set
  to 0 (the vertex is fused); no other count changes.
\<close>

theorem branch_counts_round:
  assumes dg: "create_distance_graph fuel s = Inr dg"
    and reach: "ticks_reach thr (terminal_nodes_of (edges s))
       (dg, initial_branch_counts (edges s), add_edges_from [] (edges s)) (dg', bc', G')"
  shows "(\<forall>v. bc' v \<le> 0 \<or> 3 \<le> bc' v)
     \<and> (\<forall>ts e1 e2 w. terminal_superedges_of (terminal_nodes_of (edges s)) dg' = Inr ts
            \<and> min_entry ts = Some ([e1, e2], w)
          \<longrightarrow> \<not> (bc' e1 = 1 \<and> bc' e2 = 1)
            \<and> (ticks_step thr (terminal_nodes_of (edges s)) (dg', bc', G') = Inr None
                 \<longleftrightarrow> thr \<le> w))
     \<and> (\<forall>dg'' bc'' G''.
          ticks_step thr (terminal_nodes_of (edges s)) (dg', bc', G') = Inr (Some (dg'', bc'', G''))
          \<longrightarrow> (\<exists>ts e1 e2 w. terminal_superedges_of (terminal_nodes_of (edges s)) dg' = Inr ts
                 \<and> min_entry ts = Some ([e1, e2], w) \<and> w < thr \<and> e1 \<noteq> e2
                 \<and> bc'' = (\<lambda>v. if v = e1 \<or> v = e2
                                then (if bc' v - 1 = 2 then 0 else bc' v - 1) else bc' v)))"
proof -
  have inv: "keys_ok (fst st) \<and> counts_ok (fst (snd st))"
    if "ticks_reach thr (terminal_nodes_of (edges s))
       (dg, initial_branch_counts (edges s), add_edges_from [] (edges s)) st" for st
    using that
  proof (induction rule: ticks_reach.induct)
    case start
    show ?case
      using create_distance_graph_keys_ok [OF dg] counts_ok_initial by simp
  next
    case (round st1 st2)
    obtain d1 b1 g1 where st1: "st1 = (d1, b1, g1)" by (cases st1)
    obtain d2 b2 g2 where st2: "st2 = (d2, b2, g2)" by (cases st2)
    from round.hyps(3) round.IH ticks_step_ok [of thr _ d1 b1 g1 d2 b2 g2] show ?case
      by (simp add: st1 st2)
  qed
  from inv [OF reach] have keys: "keys_ok dg'" and counts: "counts_ok bc'"
    by simp_all
  from counts have "\<forall>v. bc' v \<le> 0 \<or> 3 \<le> bc' v"
    by (simp add: counts_ok_def)
  moreover have "\<forall>ts e1 e2 w. terminal_superedges_of (terminal_nodes_of (edges s)) dg' = Inr ts
            \<and> min_entry ts = Some ([e1, e2], w)
          \<longrightarrow> \<not> (bc' e1 = 1 \<and> bc' e2 = 1)
            \<and> (ticks_step thr (terminal_nodes_of (edges s)) (dg', bc', G') = Inr None
                 \<longleftrightarrow> thr \<le> w)"
    using ticks_step_None_iff [OF _ _ counts] by blast
  moreover have "\<forall>dg'' bc'' G''.
          ticks_step thr (terminal_nodes_of (edges s)) (dg', bc', G') = Inr (Some (dg'', bc'', G''))
          \<longrightarrow> (\<exists>ts e1 e2 w. terminal_superedges_of (terminal_nodes_of (edges s)) dg' = Inr ts
                 \<and> min_entry ts = Some ([e1, e2], w) \<and> w < thr \<and> e1 \<noteq> e2
                 \<and> bc'' = (\<lambda>v. if v = e1 \<or> v = e2
                                then (if bc' v - 1 = 2 then 0 else bc' v - 1) else bc' v))"
    using ticks_step_counts [OF _ keys] by blast
  ultimately show ?thesis
    by (intro conjI)
qed

theorem branch_counts_round_witness:
  "create_distance_graph 4 fork = Inr fork_dgraph
   \<and> ticks_step 4 (terminal_nodes_of (edges fork))
        (fork_dgraph, initial_branch_counts (edges fork), add_edges_from [] (edges fork))
       = Inr (Some (pruned_dgraph, pruned_counts, stem_edges))
   \<and> ticks_reach 4 (terminal_nodes_of (edges fork))
        (fork_dgraph, initial_branch_counts (edges fork), add_edges_from [] (edges fork))
        (pruned_dgraph, pruned_counts, stem_edges)
   \<and> initial_branch_counts (edges fork) 1 = 3 \<and> pruned_counts 1 = 0
   \<and> initial_branch_counts (edges fork) 3 = 0 \<and> pruned_counts 3 = - 1
   \<and> (pruned_counts 1 \<le> 0 \<or> 3 \<le> pruned_counts 1)"
proof -
  let ?T = "terminal_nodes_of (edges fork)"
  let ?st = "(fork_dgraph, initial_branch_counts (edges fork), add_edges_from [] (edges fork))"
  have T: "?T = [0, 2, 3]"
    by (simp add: fork_sel terminal_nodes_fork)
  have G: "add_edges_from [] (edges fork) = fork_edges"
    by (simp add: fork_sel graph_fork)
  have start: "ticks_reach 4 ?T ?st ?st"
    by (rule ticks_reach.start)
  from ticks_step_fork obtain bc where
    step: "ticks_step 4 ?T ?st = Inr (Some (pruned_dgraph, bc, stem_edges))"
    by (auto simp: fork_sel terminal_nodes_fork graph_fork)
  from branch_counts_round [OF create_distance_graph_fork start] step
  obtain ts e1 e2 w where "terminal_superedges_of ?T fork_dgraph = Inr ts"
    and "min_entry ts = Some ([e1, e2], w)"
    and bc: "bc = (\<lambda>v. if v = e1 \<or> v = e2
         then (if initial_branch_counts (edges fork) v - 1 = 2 then 0
               else initial_branch_counts (edges fork) v - 1)
         else initial_branch_counts (edges fork) v)"
    by blast
  then have "e1 = 1" "e2 = 3"
    by (simp_all add: T terminal_superedges_fork min_entry_fork)
  with bc have "bc = pruned_counts"
    by (simp add: pruned_counts_def fork_sel fun_eq_iff)
  with step have step': "ticks_step 4 ?T ?st = Inr (Some (pruned_dgraph, pruned_counts, stem_edges))"
    by simp
  have "length (fst ?st) > 1"
    by (simp add: fork_dgraph_def)
  with start have r: "ticks_reach 4 ?T ?st (pruned_dgraph, pruned_counts, stem_edges)"
    using step' by (rule ticks_reach.round)
  from branch_counts_round [OF create_distance_graph_fork r]
  have "pruned_counts 1 \<le> 0 \<or> 3 \<le> pruned_counts 1"
    by blast
  moreover have "initial_branch_counts (edges fork) 1 = 3" "initial_branch_counts (edges fork) 3 = 0"
    by (simp_all add: fork_sel initial_branch_counts_def fork_edges_def unique_count_def)
  ultimately show ?thesis
    using create_distance_graph_fork step' r pruned_counts_values by simp
qed

subsection \<open>C9: the edges on cycles\<close>

text \<open>
  C9, as stated, fails: a round can increase the number of edges on cycles. In the knot
  the only cycle is the triangle, its three vertices are branch vertices, and the vertex
  nearest to their centroid is the end of the path \<open>0 - 5 - 6 - 7\<close>. The round
  replaces the three edges of the triangle by the edges from 0, 1 and 2 to 7, and the
  new edge \<open>(0, 7)\<close> closes the cycle \<open>0 - 5 - 6 - 7\<close> of four edges.
\<close>

theorem cycle_edges_not_reduced:
  "find_cycle knot_edges 8 = knot_cycle
   \<and> branch_cycle_of knot_edges knot_cycle = [0, 1, 2]
   \<and> loop_step knot_vertices (add_edges_from [] knot_edges, knot_edges) knot_cycle
        = Inr (star_edges, star_edges)
   \<and> cycle_edge_count knot_edges = 3
   \<and> cycle_edge_count star_edges = 4"
  by (simp add: find_cycle_knot branch_cycle_knot graph_knot loop_step_knot
      cycle_edge_count_knot cycle_edge_count_star)

text \<open>
  C9, amended: the number of edges on cycles is not a measure that every round
  reduces. A round on a detected cycle of two or more rows that are distinct rows of
  the edge array removes all of them and adds no row when the cycle has no branch
  vertex and one row when it has one, so the edge array gets strictly shorter; with two
  branch vertices it removes rows only; with three or more it adds at most one row per
  branch vertex, so the edge array need not get shorter. The loop returns only an edge
  array in which the detector finds no cycle, and it does return, within as many rounds
  as the edge array has rows, whenever every round it comes to shortens the edge array.
\<close>

theorem loop_removal_rounds:
  "(\<forall>G es found G' es'.
       loop_step nodes (G, es) found = Inr (G', es')
       \<and> distinct (map sort_row found) \<and> set (map sort_row found) \<subseteq> set (map sort_row es)
       \<and> 2 \<le> length found
     \<longrightarrow> (length (branch_cycle_of es found) = 0
            \<longrightarrow> length es' + length found \<le> length es \<and> length es' < length es)
         \<and> (length (branch_cycle_of es found) = 1
            \<longrightarrow> length es' + length found \<le> length es + 1 \<and> length es' < length es)
         \<and> (length (branch_cycle_of es found) = 2 \<longrightarrow> length es' \<le> length es)
         \<and> (3 \<le> length (branch_cycle_of es found)
            \<longrightarrow> length es' + length found \<le> length es + length (branch_cycle_of es found)))
   \<and> (\<forall>fuel st r. loops_loop fuel nodes st = Inr r \<longrightarrow> find_cycle r (length nodes) = [])
   \<and> (\<forall>fuel st.
        (\<forall>st'. loops_reach nodes st st' \<longrightarrow> find_cycle (snd st') (length nodes) \<noteq> []
           \<longrightarrow> (\<exists>st''. loop_step nodes st' (find_cycle (snd st') (length nodes)) = Inr st''
                  \<and> length (snd st'') < length (snd st')))
        \<and> length (snd st) < fuel
      \<longrightarrow> (\<exists>r. loops_loop fuel nodes st = Inr r \<and> find_cycle r (length nodes) = []))"
proof -
  have rounds: "(length (branch_cycle_of es found) = 0
            \<longrightarrow> length es' + length found \<le> length es \<and> length es' < length es)
         \<and> (length (branch_cycle_of es found) = 1
            \<longrightarrow> length es' + length found \<le> length es + 1 \<and> length es' < length es)
         \<and> (length (branch_cycle_of es found) = 2 \<longrightarrow> length es' \<le> length es)
         \<and> (3 \<le> length (branch_cycle_of es found)
            \<longrightarrow> length es' + length found \<le> length es + length (branch_cycle_of es found))"
    if a: "loop_step nodes (G, es) found = Inr (G', es')
       \<and> distinct (map sort_row found) \<and> set (map sort_row found) \<subseteq> set (map sort_row es)
       \<and> 2 \<le> length found" for G es found G' es'
  proof -
    from a have step: "loop_step nodes (G, es) found = Inr (G', es')"
      and rows: "distinct (map sort_row found)"
        "set (map sort_row found) \<subseteq> set (map sort_row es)"
      and two: "2 \<le> length found"
      by simp_all
    have idem: "map sort_row (map sort_row found) = map sort_row found"
      by (simp add: sort_row_idem)
    have rm: "length (remove_row es (map sort_row found)) + length found \<le> length es"
      using length_remove_row [of "map sort_row found" es, unfolded idem, OF rows] by simp
    have c0: "length es' + length found \<le> length es \<and> length es' < length es"
      if "length (branch_cycle_of es found) = 0"
      using loop_step_none [OF that, of nodes G] step rm two by simp
    have c1: "length es' + length found \<le> length es + 1 \<and> length es' < length es"
      if "length (branch_cycle_of es found) = 1"
      using loop_step_one [OF that, of nodes G] step rm two by auto
    have c2: "length es' \<le> length es" if "length (branch_cycle_of es found) = 2"
      using loop_step_two [OF that step] length_remove_row_le by auto
    have c3: "length es' + length found \<le> length es + length (branch_cycle_of es found)"
      if B: "3 \<le> length (branch_cycle_of es found)"
    proof -
      from loop_step_multi_rows [OF B step] obtain new where
        "es' = remove_row es (map sort_row found) @ new"
        and "length new \<le> length (branch_cycle_of es found)"
        by blast
      with rm show ?thesis
        by simp
    qed
    from c0 c1 c2 c3 show ?thesis
      by blast
  qed
  have partial: "find_cycle r (length nodes) = []" if "loops_loop fuel nodes st = Inr r"
    for fuel st r
    using that by (rule loops_loop_no_cycle)
  have total: "\<exists>r. loops_loop fuel nodes st = Inr r \<and> find_cycle r (length nodes) = []"
    if h: "(\<forall>st'. loops_reach nodes st st' \<longrightarrow> find_cycle (snd st') (length nodes) \<noteq> []
           \<longrightarrow> (\<exists>st''. loop_step nodes st' (find_cycle (snd st') (length nodes)) = Inr st''
                  \<and> length (snd st'') < length (snd st')))
        \<and> length (snd st) < fuel" for fuel st
  proof -
    from h obtain r where "loops_loop fuel nodes st = Inr r"
      using loops_loop_returns [of nodes st fuel] by blast
    with loops_loop_no_cycle [OF this] show ?thesis
      by blast
  qed
  from rounds partial total show ?thesis
    by blast
qed

theorem loop_removal_rounds_witness:
  "loop_step kite_vertices (kite_edges, kite_edges) kite_cycle = Inr (kite_pruned, kite_pruned)
   \<and> find_cycle kite_edges (length kite_vertices) = kite_cycle
   \<and> distinct (map sort_row kite_cycle)
   \<and> set (map sort_row kite_cycle) \<subseteq> set (map sort_row kite_edges)
   \<and> 2 \<le> length kite_cycle
   \<and> length (branch_cycle_of kite_edges kite_cycle) = 1
   \<and> length kite_pruned < length kite_edges
   \<and> length (snd (kite_edges, kite_edges)) < Suc (Suc (Suc (Suc (Suc 0))))
   \<and> loops_loop (Suc (Suc (Suc (Suc (Suc 0))))) kite_vertices (kite_edges, kite_edges)
        = Inr kite_pruned
   \<and> find_cycle kite_pruned (length kite_vertices) = []"
proof -
  have d: "distinct (map sort_row kite_cycle)"
    by (simp add: kite_cycle_def sort_row_def)
  have s: "set (map sort_row kite_cycle) \<subseteq> set (map sort_row kite_edges)"
    by (simp add: kite_cycle_def kite_edges_def sort_row_def)
  have two: "2 \<le> length kite_cycle"
    by (simp add: kite_cycle_def)
  have B: "length (branch_cycle_of kite_edges kite_cycle) = 1"
    by (simp add: branch_cycle_kite)
  have f: "length (snd (kite_edges, kite_edges)) < Suc (Suc (Suc (Suc (Suc 0))))"
    by (simp add: kite_edges_def)
  note inst = loop_removal_rounds [of kite_vertices]
  from inst loop_step_kite d s two B have less: "length kite_pruned < length kite_edges"
    by blast
  from inst kite_shrinks f
  have "\<exists>r. loops_loop (Suc (Suc (Suc (Suc (Suc 0))))) kite_vertices (kite_edges, kite_edges) = Inr r
      \<and> find_cycle r (length kite_vertices) = []"
    by blast
  then have "find_cycle kite_pruned (length kite_vertices) = []"
    unfolding loops_loop_kite by simp
  with loop_step_kite find_cycle_kite d s two B less f loops_loop_kite show ?thesis
    by simp
qed

subsection \<open>C10: isolated vertices in piece connection\<close>

text \<open>
  C10, as stated, fails for a skeleton that has vertices and no edge row: it is empty
  for the guard \<^verbatim>\<open>if skeleton.empty(): return skeleton\<close>, and
  \<^verbatim>\<open>connect_pieces\<close> returns it with its isolated vertices.
\<close>

theorem isolated_vertex_is_kept_without_edges:
  "connect_pieces 4 speck = Inr speck \<and> vertices speck = [(0, 0, 0)] \<and> edges speck = []
   \<and> radii speck = [1]"
  by (simp add: connect_pieces_def empty_def speck_def)

text \<open>
  C10, amended: for a skeleton that is not empty and whose edge rows name vertices that
  exist, a vertex \<open>v\<close> that occurs in no edge row is in none of the component masks of
  \<^verbatim>\<open>find_connected\<close>; the loop only appends rows to the edge array, none of them
  with \<open>v\<close> as an end, and \<open>v\<close> is in none of the masks of the result either; the
  output is the consolidated skeleton, whose vertices are the vertices of the input that
  occur in an edge row, in ascending order, so every vertex of the output is an end of
  one of its edges. With at most 65536 vertices and more fuel than components the loop
  returns.
\<close>

theorem isolated_vertex_is_dropped:
  assumes ne: "\<not> empty s"
    and range: "set (flatten (edges s)) \<subseteq> {..<length (vertices s)}"
    and v: "v < length (vertices s)" "v \<notin> set (flatten (edges s))"
  shows "(\<forall>m \<in> set (find_connected (vertices s) (edges s)). \<not> m ! v)
     \<and> (\<forall>es'. connect_loop fuel (vertices s) (radii s) (edges s) = Inr es' \<longrightarrow>
          take (length (edges s)) es' = edges s \<and> v \<notin> set (flatten es')
          \<and> (\<forall>m \<in> set (find_connected (vertices s) es'). \<not> m ! v)
          \<and> connect_pieces fuel s = Inr (consolidate (s\<lparr>edges := es'\<rparr>))
          \<and> vertices (consolidate (s\<lparr>edges := es'\<rparr>))
               = map (\<lambda>i. vertices s ! i) (np_unique (flatten (edges s))))
     \<and> (\<forall>r. connect_pieces fuel s = Inr r \<longrightarrow>
          (\<forall>i < length (vertices r). i \<in> set (flatten (edges r))))
     \<and> (length (vertices s) \<le> 65536
          \<and> length (find_connected (vertices s) (edges s)) < fuel
        \<longrightarrow> (\<exists>r. connect_pieces fuel s = Inr r))"
proof (intro conjI allI impI)
  show "\<forall>m \<in> set (find_connected (vertices s) (edges s)). \<not> m ! v"
    using isolated_in_no_mask [OF range _ v] by blast
next
  fix es'
  assume loop: "connect_loop fuel (vertices s) (radii s) (edges s) = Inr es'"
  from connect_loop_flatten [OF range loop]
  have fl: "set (flatten es') = set (flatten (edges s))"
    and tk: "take (length (edges s)) es' = edges s"
    by simp_all
  show "take (length (edges s)) es' = edges s"
    by (rule tk)
  show "v \<notin> set (flatten es')"
    using fl v(2) by simp
  from fl range have range': "set (flatten es') \<subseteq> {..<length (vertices s)}"
    by simp
  show "\<forall>m \<in> set (find_connected (vertices s) es'). \<not> m ! v"
    using isolated_in_no_mask [OF range' _ v(1) \<open>v \<notin> set (flatten es')\<close>] by blast
  show "connect_pieces fuel s = Inr (consolidate (s\<lparr>edges := es'\<rparr>))"
    using ne loop by (simp add: connect_pieces_def)
  show "vertices (consolidate (s\<lparr>edges := es'\<rparr>))
      = map (\<lambda>i. vertices s ! i) (np_unique (flatten (edges s)))"
    using np_unique_cong [OF fl] by (simp add: consolidate_def restrict_def)
next
  fix r i
  assume r: "connect_pieces fuel s = Inr r" and i: "i < length (vertices r)"
  from r ne obtain es' where "r = consolidate (s\<lparr>edges := es'\<rparr>)"
    by (auto simp: connect_pieces_def elim: bind_result_InrE)
  with i show "i \<in> set (flatten (edges r))"
    using consolidate_no_isolated by simp
next
  assume "length (vertices s) \<le> 65536 \<and> length (find_connected (vertices s) (edges s)) < fuel"
  then have small: "length (vertices s) \<le> 65536"
    and "card (label (edges s) ` set (flatten (edges s))) < fuel"
    using length_find_connected [OF range] by (simp_all add: length_labels)
  from connect_loop_returns [OF range small this(2)]
  obtain es' where "connect_loop fuel (vertices s) (radii s) (edges s) = Inr es'"
    by blast
  with ne show "\<exists>r. connect_pieces fuel s = Inr r"
    by (simp add: connect_pieces_def)
qed

theorem isolated_vertex_is_dropped_witness:
  "\<not> empty crumb \<and> set (flatten (edges crumb)) \<subseteq> {..<length (vertices crumb)}
   \<and> 6 < length (vertices crumb) \<and> 6 \<notin> set (flatten (edges crumb))
   \<and> length (vertices crumb) \<le> 65536
   \<and> length (find_connected (vertices crumb) (edges crumb)) < 4
   \<and> connect_pieces 4 crumb = Inr bridged
   \<and> \<not> (find_connected (vertices crumb) (edges crumb) ! 0) ! 6
   \<and> \<not> (find_connected (vertices crumb) (edges crumb) ! 1) ! 6
   \<and> length (vertices bridged) = 6"
proof -
  have range: "set (flatten (edges crumb)) \<subseteq> {..<length (vertices crumb)}"
    by (simp add: crumb_def flatten_gap_edges) (simp add: crumb_vertices_def)
  have v: "6 < length (vertices crumb)" "6 \<notin> set (flatten (edges crumb))"
    by (simp_all add: crumb_def flatten_gap_edges) (simp add: crumb_vertices_def)
  have n: "length (vertices crumb) \<le> 65536"
    by (simp add: crumb_def crumb_vertices_def)
  have k: "length (find_connected (vertices crumb) (edges crumb)) < 4"
    by (simp add: crumb_def find_connected_crumb length_crumb_masks)
  from isolated_vertex_is_dropped [OF crumb_not_empty range v, of 4]
  have "\<forall>m \<in> set (find_connected (vertices crumb) (edges crumb)). \<not> m ! 6"
    by blast
  then have "\<not> (find_connected (vertices crumb) (edges crumb) ! 0) ! 6"
    and "\<not> (find_connected (vertices crumb) (edges crumb) ! 1) ! 6"
    by (simp_all add: crumb_def find_connected_crumb crumb_masks_def)
  moreover have "length (vertices bridged) = 6"
    by (simp add: bridged_def gap_vertices_def)
  ultimately show ?thesis
    using crumb_not_empty range v n k connect_pieces_crumb by simp
qed

subsection \<open>C1: dust removal\<close>



end
